theory Spec2Isabelle
  imports Main "HOL-Library.Multiset" "HOL-Library.Sublist"
begin

section \<open>HEALPix correspondence matrices and patch extraction (ADL.preproc.HEALPix)\<close>

text \<open>
  A shallow embedding of \<^verbatim>\<open>src/ADL/preproc/HEALPix.py\<close>. Python integers are \<open>int\<close>;
  a two-dimensional numpy array is the list of its rows; an exception is the \<open>Inl\<close> branch
  of a sum. The functions of healpy, astropy and pandas that the module calls are
  parameters of the model or are written out from their documented behaviour, each
  marked where it is introduced.
\<close>

subsection \<open>Exceptions\<close>

datatype error =
    ZeroDivisionError
  | OverflowError
  | ValueError
  | TypeError
  | IndexError
  | RecursionError

subsection \<open>numpy integer arrays\<close>

text \<open>
  \<^verbatim>\<open>np.full((m, m), o_pix)\<close> takes its dtype from the fill value: a Python integer that
  fits in 64 bits signed gives \<^verbatim>\<open>int64\<close>, one in \<open>[2^63, 2^64)\<close> gives \<^verbatim>\<open>uint64\<close>, any
  other gives an array of Python objects. \<^verbatim>\<open>np.left_shift\<close> and \<^verbatim>\<open>+=\<close> wrap around in the
  first two and are exact in the third.
\<close>

datatype dtype = Int64 | UInt64 | Object

definition np_full_dtype :: "int \<Rightarrow> dtype" where
  "np_full_dtype v =
     (if - (2 ^ 63) \<le> v \<and> v < 2 ^ 63 then Int64
      else if 2 ^ 63 \<le> v \<and> v < 2 ^ 64 then UInt64
      else Object)"

fun wrap :: "dtype \<Rightarrow> int \<Rightarrow> int" where
  "wrap Int64 v = (v + 2 ^ 63) mod 2 ^ 64 - 2 ^ 63"
| "wrap UInt64 v = v mod 2 ^ 64"
| "wrap Object v = v"

type_synonym matrix = "int list list"

definition np_full :: "nat \<Rightarrow> nat \<Rightarrow> 'a \<Rightarrow> 'a list list" where
  "np_full rows cols v = replicate rows (replicate cols v)"

text \<open>\<^verbatim>\<open>np.left_shift(matr, 1, out=matr)\<close>\<close>

definition left_shift1 :: "dtype \<Rightarrow> matrix \<Rightarrow> matrix" where
  "left_shift1 dt matr = map (map (\<lambda>v. wrap dt (2 * v))) matr"

text \<open>\<^verbatim>\<open>matr[mid:, :] += 1\<close>\<close>

definition inc_rows_from :: "dtype \<Rightarrow> nat \<Rightarrow> matrix \<Rightarrow> matrix" where
  "inc_rows_from dt mid matr =
     take mid matr @ map (map (\<lambda>v. wrap dt (v + 1))) (drop mid matr)"

text \<open>\<^verbatim>\<open>matr[:, mid:] += 1\<close>\<close>

definition inc_cols_from :: "dtype \<Rightarrow> nat \<Rightarrow> matrix \<Rightarrow> matrix" where
  "inc_cols_from dt mid matr =
     map (\<lambda>row. take mid row @ map (\<lambda>v. wrap dt (v + 1)) (drop mid row)) matr"

text \<open>
  \<^verbatim>\<open>matr[i:i+mid, j:j+mid]\<close> for non-negative \<open>i\<close>, \<open>j\<close>: the slice is clipped at the
  array's edge.
\<close>

definition view :: "'a list list \<Rightarrow> nat \<Rightarrow> nat \<Rightarrow> nat \<Rightarrow> 'a list list" where
  "view matr i j mid = map (\<lambda>row. take mid (drop j row)) (take mid (drop i matr))"

text \<open>
  The slice is a view of the same memory: what the recursive call writes into it is
  written into \<open>matr\<close>. \<open>assign_view matr i j mid sub\<close> is \<open>matr\<close> after the cells of
  \<^verbatim>\<open>matr[i:i+mid, j:j+mid]\<close> have become \<open>sub\<close>.
\<close>

definition assign_view :: "'a list list \<Rightarrow> nat \<Rightarrow> nat \<Rightarrow> nat \<Rightarrow> 'a list list \<Rightarrow> 'a list list" where
  "assign_view matr i j mid sub =
     take i matr
     @ map2 (\<lambda>row srow. take j row @ srow @ drop (j + mid) row) (take mid (drop i matr)) sub
     @ drop (i + mid) matr"

subsection \<open>\<^verbatim>\<open>recursive_fill\<close>\<close>

text \<open>
  The four sub-views are pairwise disjoint, so every recursive call reads its cells as the
  two shift-and-add passes left them. On an array with no rows \<open>mid\<close> is 0 and the
  function calls itself on the same empty array until Python raises \<^verbatim>\<open>RecursionError\<close>.
\<close>

function recursive_fill :: "dtype \<Rightarrow> matrix \<Rightarrow> error + matrix" where
  "recursive_fill dt matr =
     (if length matr = 1 then Inr matr
      else if length matr = 0 then Inl RecursionError
      else
        let mid = length matr div 2;
            m1 = inc_rows_from dt mid (left_shift1 dt matr);
            m2 = inc_cols_from dt mid (left_shift1 dt m1)
        in case recursive_fill dt (view m2 0 0 mid) of Inl e \<Rightarrow> Inl e | Inr q00 \<Rightarrow>
           (case recursive_fill dt (view m2 0 mid mid) of Inl e \<Rightarrow> Inl e | Inr q01 \<Rightarrow>
           (case recursive_fill dt (view m2 mid 0 mid) of Inl e \<Rightarrow> Inl e | Inr q10 \<Rightarrow>
           (case recursive_fill dt (view m2 mid mid mid) of Inl e \<Rightarrow> Inl e | Inr q11 \<Rightarrow>
              Inr (assign_view (assign_view (assign_view (assign_view m2
                     0 0 mid q00) 0 mid mid q01) mid 0 mid q10) mid mid mid q11)))))"
  by pat_completeness auto
termination
  by (relation "measure (\<lambda>(dt, matr). length matr)")
     (auto simp: view_def inc_cols_from_def inc_rows_from_def left_shift1_def)

subsection \<open>\<^verbatim>\<open>one_pixel_fragmentation\<close>\<close>

text \<open>
  \<^verbatim>\<open>depth = int(np.log2(f_nside / o_nside))\<close>. The division raises on a zero divisor;
  \<^verbatim>\<open>np.log2\<close> of zero is \<open>-inf\<close> and of a negative number is \<open>nan\<close>, which \<^verbatim>\<open>int\<close> refuses
  with \<^verbatim>\<open>OverflowError\<close> and \<^verbatim>\<open>ValueError\<close>. For a positive quotient \<^verbatim>\<open>int\<close> truncates
  the logarithm towards zero.

  The code computes the quotient and its logarithm in double precision; \<open>log2_trunc\<close>
  computes the truncated logarithm exactly, on the integers. The two agree
  \<^item> when the ratio is a power of two \<open>2^d\<close> with \<open>d\<close> up to 1023: Python rounds the
    quotient of two integers correctly, so that it is \<open>2^d\<close> itself, whose logarithm is
    \<open>d\<close> itself;
  \<^item> for every pair of positive resolutions up to HEALPix's largest, \<open>2^29\<close>: a quotient
    that is not a power of two is then below the next power of two by at least one part
    in \<open>2^30\<close>, far more than the rounding of the division and of the logarithm, one
    part in \<open>2^52\<close>.

  They differ for some larger resolutions: for \<open>o_nside = 2^53\<close> and
  \<open>f_nside = 2^54 - 1\<close> the quotient is rounded to \<open>2.0\<close> and the code takes the depth 1,
  where the exact truncation is 0. Every property below that depends on the depth is
  stated for a power-of-two ratio or for resolutions up to \<open>2^29\<close>.
\<close>

fun ilog2 :: "nat \<Rightarrow> nat" where
  "ilog2 n = (if n < 2 then 0 else Suc (ilog2 (n div 2)))"

declare ilog2.simps [simp del]

definition log2_trunc :: "int \<Rightarrow> int \<Rightarrow> error + int" where
  "log2_trunc f_nside o_nside =
     (if o_nside = 0 then Inl ZeroDivisionError
      else if f_nside = 0 then Inl OverflowError
      else if (f_nside < 0) \<noteq> (o_nside < 0) then Inl ValueError
      else if \<bar>o_nside\<bar> \<le> \<bar>f_nside\<bar> then Inr (int (ilog2 (nat (\<bar>f_nside\<bar> div \<bar>o_nside\<bar>))))
      else Inr (- int (ilog2 (nat (\<bar>o_nside\<bar> div \<bar>f_nside\<bar>)))))"

text \<open>
  \<^verbatim>\<open>m_len = 2 ** depth\<close> is a float when \<open>depth\<close> is negative, and \<^verbatim>\<open>np.full\<close> refuses a
  float as a dimension with \<^verbatim>\<open>TypeError\<close>.
\<close>

definition one_pixel_fragmentation :: "int \<Rightarrow> int \<Rightarrow> int \<Rightarrow> error + matrix" where
  "one_pixel_fragmentation o_nside o_pix f_nside =
     (case log2_trunc f_nside o_nside of
        Inl e \<Rightarrow> Inl e
      | Inr depth \<Rightarrow>
          if depth < 0 then Inl TypeError
          else
            let m_len = 2 ^ nat depth;
                f_matr = np_full m_len m_len o_pix
            in recursive_fill (np_full_dtype o_pix) f_matr)"

subsection \<open>The sphere pixelizer (healpy and astropy)\<close>

text \<open>
  Modelled from the spec: \<^verbatim>\<open>hp.nside2npix\<close>, the pixel count of a resolution, is not code of
  this repository; the spec gives it as \<open>12 * nside^2\<close>.
\<close>

definition nside2npix :: "int \<Rightarrow> nat" where
  "nside2npix nside = nat (12 * nside * nside)"

text \<open>
  The conversions of coordinates are calls into astropy and healpy; the model takes them as
  parameters. \<open>radec2pix\<close> is the module's function of that name, whose body is two such
  calls: it maps the arrays of right ascensions and declinations to the array of their
  pixels. \<open>ang2vec ra dec\<close> stands for \<^verbatim>\<open>SkyCoord(...)\<close> followed by \<^verbatim>\<open>hp.ang2vec\<close>,
  \<open>vec2pix nside vec\<close> for \<^verbatim>\<open>hp.vec2pix(nside, *vec, nest=True)\<close> and
  \<open>query_disc nside vec radius\<close> for
  \<^verbatim>\<open>hp.query_disc(nside, vec, np.radians(radius), nest=True, inclusive=True)\<close>.
  Coordinates \<open>'c\<close>, vectors \<open>'v\<close> and radii \<open>'r\<close> are floating-point data that only these
  functions look into.
\<close>

record ('c, 'v, 'r) pixelizer =
  radec2pix :: "'c list \<Rightarrow> 'c list \<Rightarrow> int \<Rightarrow> int list"
  ang2vec :: "'c \<Rightarrow> 'c \<Rightarrow> 'v"
  vec2pix :: "int \<Rightarrow> 'v \<Rightarrow> int"
  query_disc :: "int \<Rightarrow> 'v \<Rightarrow> 'r \<Rightarrow> int list"

subsection \<open>Indexing a flat numpy array\<close>

text \<open>
  An index \<open>i\<close> into an array of \<open>n\<close> cells is good when \<open>-n \<le> i < n\<close>, a negative one
  counting from the end; any other raises \<^verbatim>\<open>IndexError\<close>. \<open>np_take h is\<close> is \<^verbatim>\<open>h[is]\<close> for an
  array of indices, \<open>np_put h is v\<close> is \<open>h\<close> after \<^verbatim>\<open>h[is] = v\<close>.
\<close>

definition np_index :: "'a list \<Rightarrow> int \<Rightarrow> error + nat" where
  "np_index h i =
     (let n = int (length h); j = (if i < 0 then i + n else i)
      in if 0 \<le> j \<and> j < n then Inr (nat j) else Inl IndexError)"

fun np_take :: "'a list \<Rightarrow> int list \<Rightarrow> error + 'a list" where
  "np_take h [] = Inr []"
| "np_take h (i # is) =
     (case np_index h i of
        Inl e \<Rightarrow> Inl e
      | Inr j \<Rightarrow> (case np_take h is of Inl e \<Rightarrow> Inl e | Inr vs \<Rightarrow> Inr (h ! j # vs)))"

fun np_put :: "'a list \<Rightarrow> int list \<Rightarrow> 'a \<Rightarrow> error + 'a list" where
  "np_put h [] v = Inr h"
| "np_put h (i # is) v =
     (case np_index h i of
        Inl e \<Rightarrow> Inl e
      | Inr j \<Rightarrow> np_put (h[j := v]) is v)"

subsection \<open>\<^verbatim>\<open>flat_arr2matr\<close>\<close>

text \<open>
  \<^verbatim>\<open>img[i] = h_arr[pix_matr[i]]\<close> for every row \<open>i\<close> of the correspondence matrix, whose cells
  are integers.
\<close>

fun flat_arr2matr :: "'a list \<Rightarrow> matrix \<Rightarrow> error + 'a list list" where
  "flat_arr2matr h_arr [] = Inr []"
| "flat_arr2matr h_arr (row # pix_matr) =
     (case np_take h_arr row of
        Inl e \<Rightarrow> Inl e
      | Inr img_row \<Rightarrow>
          (case flat_arr2matr h_arr pix_matr of Inl e \<Rightarrow> Inl e | Inr img \<Rightarrow> Inr (img_row # img)))"

subsection \<open>\<^verbatim>\<open>draw_circles\<close> and \<^verbatim>\<open>draw_dots\<close>\<close>

text \<open>The radii are one number or an array of one number per object.\<close>

datatype 'r radiuses = Scalar 'r | Array "'r list"

text \<open>
  The body of the loop over \<^verbatim>\<open>zip(ras, decs, radiuses)\<close>, with the bitmap \<open>h_arr\<close> as its
  state; \<^verbatim>\<open>cl_pix in pix_matr\<close> looks for the pixel among all cells of the matrix.
\<close>

fun draw_circles_loop ::
  "('c, 'v, 'r) pixelizer \<Rightarrow> int \<Rightarrow> matrix \<Rightarrow> bool \<Rightarrow> int list \<Rightarrow> ('c \<times> 'c \<times> 'r) list
     \<Rightarrow> error + int list" where
  "draw_circles_loop hp nside pix_matr centers_in_patch h_arr [] = Inr h_arr"
| "draw_circles_loop hp nside pix_matr centers_in_patch h_arr ((ra, dec, radius) # rest) =
     (let vec = ang2vec hp ra dec
      in if centers_in_patch \<and> vec2pix hp nside vec \<notin> set (concat pix_matr)
         then draw_circles_loop hp nside pix_matr centers_in_patch h_arr rest
         else
           (case np_put h_arr (query_disc hp nside vec radius) 1 of
              Inl e \<Rightarrow> Inl e
            | Inr h_arr' \<Rightarrow> draw_circles_loop hp nside pix_matr centers_in_patch h_arr' rest))"

definition draw_circles ::
  "('c, 'v, 'r) pixelizer \<Rightarrow> 'c list \<Rightarrow> 'c list \<Rightarrow> 'r radiuses \<Rightarrow> int \<Rightarrow> matrix \<Rightarrow> bool
     \<Rightarrow> error + matrix" where
  "draw_circles hp ras decs radiuses nside pix_matr centers_in_patch =
     (let h_arr = replicate (nside2npix nside) 0;
          radiuses' = (case radiuses of
                         Array rs \<Rightarrow> rs
                       | Scalar r \<Rightarrow> replicate (length ras) r)
      in case draw_circles_loop hp nside pix_matr centers_in_patch h_arr
                (zip ras (zip decs radiuses')) of
           Inl e \<Rightarrow> Inl e
         | Inr h_arr' \<Rightarrow> flat_arr2matr h_arr' pix_matr)"

definition draw_dots ::
  "('c, 'v, 'r) pixelizer \<Rightarrow> 'c list \<Rightarrow> 'c list \<Rightarrow> int \<Rightarrow> matrix \<Rightarrow> error + matrix" where
  "draw_dots hp ras decs nside pix_matr =
     (let h_arr = replicate (nside2npix nside) 0
      in case np_put h_arr (radec2pix hp ras decs nside) 1 of
           Inl e \<Rightarrow> Inl e
         | Inr h_arr' \<Rightarrow> flat_arr2matr h_arr' pix_matr)"

subsection \<open>Python slices and ranges\<close>

text \<open>
  \<^verbatim>\<open>xs[start:stop]\<close>: a negative bound counts from the end, and both bounds are clipped to
  the list. \<^verbatim>\<open>m[x:x+side, y:y+side]\<close> slices the rows, then every row.
\<close>

definition py_slice :: "'a list \<Rightarrow> int \<Rightarrow> int \<Rightarrow> 'a list" where
  "py_slice xs start stop =
     (let n = int (length xs);
          a = (if start < 0 then max 0 (start + n) else min start n);
          b = (if stop < 0 then max 0 (stop + n) else min stop n)
      in take (nat (b - a)) (drop (nat a) xs))"

definition window :: "'a list list \<Rightarrow> int \<Rightarrow> int \<Rightarrow> int \<Rightarrow> 'a list list" where
  "window m x y side = map (\<lambda>row. py_slice row y (y + side)) (py_slice m x (x + side))"

text \<open>\<^verbatim>\<open>range(start, stop, step)\<close>, which refuses a step of zero.\<close>

definition py_range :: "int \<Rightarrow> int \<Rightarrow> int \<Rightarrow> error + int list" where
  "py_range start stop step =
     (if step = 0 then Inl ValueError
      else if 0 < step
        then Inr (map (\<lambda>k. start + int k * step) [0..<nat ((stop - start + step - 1) div step)])
        else Inr (map (\<lambda>k. start + int k * step) [0..<nat ((start - stop - step - 1) div (- step))]))"

text \<open>
  \<^verbatim>\<open>xs[::step]\<close>: the first element and every \<open>step\<close>-th after it; with a negative step the
  same from the last element backwards.
\<close>

function every :: "nat \<Rightarrow> 'a list \<Rightarrow> 'a list" where
  "every k [] = []"
| "every k (x # xs) = x # every k (drop (k - 1) xs)"
  by pat_completeness auto
termination
  by (relation "measure (\<lambda>(k, xs). length xs)") auto

definition py_slice_step :: "'a list \<Rightarrow> int \<Rightarrow> error + 'a list" where
  "py_slice_step xs step =
     (if step = 0 then Inl ValueError
      else if 0 < step then Inr (every (nat step) xs)
      else Inr (every (nat (- step)) (rev xs)))"

subsection \<open>\<^verbatim>\<open>src_on_batch\<close>\<close>

text \<open>
  A line of the patch table has the columns \<^verbatim>\<open>x\<close>, \<^verbatim>\<open>y\<close>, \<^verbatim>\<open>pix2\<close> and \<^verbatim>\<open>n_src\<close>. A
  catalog is a data frame; a row of it has the coarse pixel \<^verbatim>\<open>pix2\<close>, the fine pixel
  \<^verbatim>\<open>pix11\<close> and the rest of its columns, and the function adds the columns \<^verbatim>\<open>x\<close> and
  \<^verbatim>\<open>y\<close>. The catalogs are a dictionary from names to data frames, kept as the list of its
  items.
\<close>

record patch_line =
  pl_x :: int
  pl_y :: int
  pl_pix2 :: int
  pl_n_src :: nat

record 'a source =
  src_pix2 :: int
  src_pix11 :: int
  src_other :: 'a

record 'a located =
  loc_source :: "'a source"
  loc_x :: nat
  loc_y :: nat

text \<open>
  \<^verbatim>\<open>np.where(f_matr == pix)\<close>: the positions of the cells equal to \<open>pix\<close>, row by row.
  \<^verbatim>\<open>coords[0][0]\<close> and \<^verbatim>\<open>coords[1][0]\<close> are the row and the column of the first of them, and
  raise \<^verbatim>\<open>IndexError\<close> when there is none.
\<close>

definition np_where :: "matrix \<Rightarrow> int \<Rightarrow> (nat \<times> nat) list" where
  "np_where m v =
     concat (map (\<lambda>i. map (\<lambda>j. (i, j)) (filter (\<lambda>j. m ! i ! j = v) [0..<length (m ! i)]))
               [0..<length m])"

definition locate :: "matrix \<Rightarrow> 'a source \<Rightarrow> error + 'a located" where
  "locate f_matr r =
     (case np_where f_matr (src_pix11 r) of
        [] \<Rightarrow> Inl IndexError
      | (cx, cy) # _ \<Rightarrow> Inr \<lparr> loc_source = r, loc_x = cx, loc_y = cy \<rparr>)"

fun locate_all :: "matrix \<Rightarrow> 'a source list \<Rightarrow> error + 'a located list" where
  "locate_all f_matr [] = Inr []"
| "locate_all f_matr (r # cur_cat) =
     (case locate f_matr r of
        Inl e \<Rightarrow> Inl e
      | Inr l \<Rightarrow> (case locate_all f_matr cur_cat of Inl e \<Rightarrow> Inl e | Inr ls \<Rightarrow> Inr (l # ls)))"

fun src_on_batch_loop ::
  "patch_line \<Rightarrow> matrix \<Rightarrow> (string \<times> 'a source list) list
     \<Rightarrow> error + (string \<times> 'a located list) list" where
  "src_on_batch_loop patch_line f_matr [] = Inr []"
| "src_on_batch_loop patch_line f_matr ((name, cat) # cats) =
     (let cur_cat = filter (\<lambda>r. src_pix2 r = pl_pix2 patch_line) cat;
          cur_cat = filter (\<lambda>r. src_pix11 r \<in> set (concat f_matr)) cur_cat
      in case locate_all f_matr cur_cat of
           Inl e \<Rightarrow> Inl e
         | Inr located \<Rightarrow>
             (case src_on_batch_loop patch_line f_matr cats of
                Inl e \<Rightarrow> Inl e
              | Inr output \<Rightarrow> Inr ((name, located) # output)))"

definition src_on_batch ::
  "patch_line \<Rightarrow> matrix \<Rightarrow> (string \<times> 'a source list) list
     \<Rightarrow> error + (string \<times> 'a located list) list" where
  "src_on_batch patch_line f_matr cats =
     (let x = pl_x patch_line; y = pl_y patch_line;
          f_matr = window f_matr x y 64
      in src_on_batch_loop patch_line f_matr cats)"

subsection \<open>\<^verbatim>\<open>generate_patch_coords\<close>\<close>

text \<open>
  The two loops over \<^verbatim>\<open>range(0, 1024 - 64, step)\<close> for one coarse pixel: the windows of the
  image \<open>pic\<close> that have a cell other than zero, each with the number of such cells.
\<close>

definition scan_windows :: "matrix \<Rightarrow> int \<Rightarrow> int \<Rightarrow> error + (int \<times> int \<times> nat) list" where
  "scan_windows pic step patch_size =
     (case py_range 0 (1024 - 64) step of
        Inl e \<Rightarrow> Inl e
      | Inr xs \<Rightarrow>
          Inr (concat (map (\<lambda>x. concat (map (\<lambda>y.
                 let patch_pic = window pic x y patch_size
                 in if list_ex (\<lambda>v. v \<noteq> 0) (concat patch_pic)
                    then [(x, y, length (filter (\<lambda>v. v \<noteq> 0) (concat patch_pic)))]
                    else []) xs)) xs)))"

text \<open>
  The loop over the coarse pixels. The catalogs are read from files by code that is not
  part of the module; \<open>ras\<close> and \<open>decs\<close> are the columns \<^verbatim>\<open>RA\<close> and \<^verbatim>\<open>DEC\<close> of their
  concatenation. The function does not read its parameter \<^verbatim>\<open>radius\<close>.
\<close>

fun sweep ::
  "('c, 'v, 'r) pixelizer \<Rightarrow> 'c list \<Rightarrow> 'c list \<Rightarrow> int \<Rightarrow> int \<Rightarrow> int \<Rightarrow> int \<Rightarrow> int list
     \<Rightarrow> error + patch_line list" where
  "sweep hp ras decs step o_nside nside patch_size [] = Inr []"
| "sweep hp ras decs step o_nside nside patch_size (i # pixels) =
     (case one_pixel_fragmentation o_nside i nside of
        Inl e \<Rightarrow> Inl e
      | Inr pix_matr \<Rightarrow>
          (case draw_dots hp ras decs nside pix_matr of
             Inl e \<Rightarrow> Inl e
           | Inr pic \<Rightarrow>
               (case scan_windows pic step patch_size of
                  Inl e \<Rightarrow> Inl e
                | Inr found \<Rightarrow>
                    (case sweep hp ras decs step o_nside nside patch_size pixels of
                       Inl e \<Rightarrow> Inl e
                     | Inr all_idx \<Rightarrow>
                         Inr (map (\<lambda>(x, y, n_src).
                                \<lparr> pl_x = x, pl_y = y, pl_pix2 = i, pl_n_src = n_src \<rparr>) found
                              @ all_idx)))))"

text \<open>
  The loop runs over \<^verbatim>\<open>range(hp.nside2npix(2))\<close>. With \<^verbatim>\<open>n_patches\<close> given the step is 1
  and a table of more than \<^verbatim>\<open>n_patches\<close> lines is thinned out to every
  \<^verbatim>\<open>len(all_idx) // n_patches\<close>-th line.
\<close>

definition generate_patch_coords ::
  "('c, 'v, 'r) pixelizer \<Rightarrow> 'c list \<Rightarrow> 'c list \<Rightarrow> int \<Rightarrow> int \<Rightarrow> int \<Rightarrow> int \<Rightarrow> int option
     \<Rightarrow> error + patch_line list" where
  "generate_patch_coords hp ras decs step o_nside nside patch_size n_patches =
     (let step = (if n_patches \<noteq> None then 1 else step)
      in case sweep hp ras decs step o_nside nside patch_size (map int [0..<nside2npix 2]) of
           Inl e \<Rightarrow> Inl e
         | Inr all_idx \<Rightarrow>
             (case n_patches of
                None \<Rightarrow> Inr all_idx
              | Some n \<Rightarrow>
                  if n < int (length all_idx)
                  then (if n = 0 then Inl ZeroDivisionError
                        else py_slice_step all_idx (int (length all_idx) div n))
                  else Inr all_idx))"

subsection \<open>Auxiliary notions for the proofs\<close>

text \<open>
  \<open>hcat A B\<close> puts two blocks side by side, \<open>square n m\<close> says that \<open>m\<close> has \<open>n\<close> rows of
  \<open>n\<close> cells, and \<open>nested d p\<close> is the matrix of the \<open>4^d\<close> descendants of \<open>p\<close> in the
  nested scheme, built quadrant by quadrant. They appear in lemmas only.
\<close>

definition hcat :: "'a list list \<Rightarrow> 'a list list \<Rightarrow> 'a list list" where
  "hcat A B = map2 (@) A B"

definition square :: "nat \<Rightarrow> 'a list list \<Rightarrow> bool" where
  "square n m \<longleftrightarrow> length m = n \<and> (\<forall>row \<in> set m. length row = n)"

fun nested :: "nat \<Rightarrow> int \<Rightarrow> matrix" where
  "nested 0 p = [[p]]"
| "nested (Suc d) p =
     hcat (nested d (4 * p)) (nested d (4 * p + 1)) @ hcat (nested d (4 * p + 2)) (nested d (4 * p + 3))"


text \<open>
  A pixelizer for the witnesses: a coordinate is the number of its pixel, and the disc of
  radius \<open>r\<close> around pixel \<open>v\<close> is the pixels \<open>v - r, ..., v + r\<close>.
\<close>

definition toy_pixelizer :: "(int, int, int) pixelizer" where
  "toy_pixelizer =
     \<lparr> radec2pix = (\<lambda>ras decs nside. ras),
       ang2vec = (\<lambda>ra dec. ra),
       vec2pix = (\<lambda>nside vec. vec),
       query_disc = (\<lambda>nside vec radius. [vec - radius .. vec + radius]) \<rparr>"

text \<open>
  What the spec asks of the catalog aligner for one catalog, in terms of the
  correspondence matrix itself. \<open>patch_cell f_matr patch_line side i j v\<close> says that the
  patch of \<open>side\<close> rows and columns whose origin is the \<open>(x, y)\<close> of \<open>patch_line\<close> holds the
  fine pixel \<open>v\<close> at its row \<open>i\<close> and column \<open>j\<close>, that is, that \<open>v\<close> is the cell
  \<open>(x + i, y + j)\<close> of \<open>f_matr\<close>. \<open>aligned_patch\<close> says of an input catalog \<open>entry\<close> and an
  output catalog \<open>result\<close> that \<open>result\<close> has the name of \<open>entry\<close>; that its records are,
  in their order, the records of \<open>entry\<close> whose coarse pixel is the patch's and whose fine
  pixel is in the patch; and that the \<open>(x, y)\<close> of each is a position, the only one, at
  which the patch holds the record's fine pixel.
\<close>

definition patch_cell :: "matrix \<Rightarrow> patch_line \<Rightarrow> nat \<Rightarrow> nat \<Rightarrow> nat \<Rightarrow> int \<Rightarrow> bool" where
  "patch_cell f_matr patch_line side i j v \<longleftrightarrow>
     i < side \<and> j < side
     \<and> nat (pl_x patch_line) + i < length f_matr
     \<and> nat (pl_y patch_line) + j < length (f_matr ! (nat (pl_x patch_line) + i))
     \<and> f_matr ! (nat (pl_x patch_line) + i) ! (nat (pl_y patch_line) + j) = v"

definition in_patch :: "matrix \<Rightarrow> patch_line \<Rightarrow> nat \<Rightarrow> int \<Rightarrow> bool" where
  "in_patch f_matr patch_line side v \<longleftrightarrow>
     (\<exists>i < side. \<exists>j < side. patch_cell f_matr patch_line side i j v)"

definition aligned_patch ::
  "matrix \<Rightarrow> patch_line \<Rightarrow> nat \<Rightarrow> string \<times> 'a source list \<Rightarrow> string \<times> 'a located list \<Rightarrow> bool" where
  "aligned_patch f_matr patch_line side entry result \<longleftrightarrow>
     fst result = fst entry
     \<and> map loc_source (snd result) =
         filter (\<lambda>r. src_pix2 r = pl_pix2 patch_line
                      \<and> in_patch f_matr patch_line side (src_pix11 r)) (snd entry)
     \<and> (\<forall>l \<in> set (snd result).
           patch_cell f_matr patch_line side (loc_x l) (loc_y l) (src_pix11 (loc_source l))
           \<and> (\<forall>i j. patch_cell f_matr patch_line side i j (src_pix11 (loc_source l))
                  \<longrightarrow> loc_x l = i \<and> loc_y l = j))"

text \<open>
  The same for the loop of the aligner, which works on the matrix \<open>W\<close> that it is given:
  the records kept are those whose fine pixel is a cell of \<open>W\<close>, each with the position of
  that cell in \<open>W\<close>. It appears in lemmas only.
\<close>

definition aligned :: "matrix \<Rightarrow> int \<Rightarrow> string \<times> 'a source list \<Rightarrow> string \<times> 'a located list \<Rightarrow> bool" where
  "aligned W pix2 entry result \<longleftrightarrow>
     fst result = fst entry
     \<and> map loc_source (snd result) =
         filter (\<lambda>r. src_pix2 r = pix2 \<and> src_pix11 r \<in> set (concat W)) (snd entry)
     \<and> (\<forall>l \<in> set (snd result).
           loc_x l < length W \<and> loc_y l < length (W ! loc_x l)
           \<and> W ! loc_x l ! loc_y l = src_pix11 (loc_source l)
           \<and> (\<forall>i j. i < length W \<and> j < length (W ! i) \<and> W ! i ! j = src_pix11 (loc_source l)
                  \<longrightarrow> loc_x l = i \<and> loc_y l = j))"

text \<open>
  The window origins of one axis, \<^verbatim>\<open>range(0, 1024 - 64, step)\<close>, for a positive step.
\<close>

definition grid :: "int \<Rightarrow> int list" where
  "grid s = map (\<lambda>k. int k * s) [0..<nat ((1024 - 64 + s - 1) div s)]"


section \<open>Properties\<close>

declare recursive_fill.simps [simp del]

subsection \<open>Block matrices\<close>

lemma hcat_simps [simp]:
  "hcat [] B = []" "hcat A [] = []" "hcat (a # A) (b # B) = (a @ b) # hcat A B"
  by (simp_all add: hcat_def)

lemma length_hcat [simp]: "length (hcat A B) = min (length A) (length B)"
  by (simp add: hcat_def)

lemma map_take_hcat:
  "length A = length B \<Longrightarrow> \<forall>r \<in> set A. length r = n \<Longrightarrow> map (take n) (hcat A B) = A"
  by (induction A B rule: list_induct2) auto

lemma map_drop_hcat:
  "length A = length B \<Longrightarrow> \<forall>r \<in> set A. length r = n \<Longrightarrow> map (drop n) (hcat A B) = B"
  by (induction A B rule: list_induct2) auto

lemma view_blocks:
  assumes "square n A" "square n B" "square n C" "square n D"
  shows "view (hcat A B @ hcat C D) 0 0 n = A"
    and "view (hcat A B @ hcat C D) 0 n n = B"
    and "view (hcat A B @ hcat C D) n 0 n = C"
    and "view (hcat A B @ hcat C D) n n n = D"
proof -
  have l: "length A = n" "length B = n" "length C = n" "length D = n"
    and r: "\<forall>r \<in> set A. length r = n" "\<forall>r \<in> set B. length r = n"
           "\<forall>r \<in> set C. length r = n" "\<forall>r \<in> set D. length r = n"
    using assms by (auto simp: square_def)
  have t: "map (\<lambda>row. take n (drop n row)) (hcat X Y) = Y"
    if "length X = length Y" "\<forall>r \<in> set X. length r = n" "\<forall>r \<in> set Y. length r = n" for X Y :: "'a list list"
    using that by (induction X Y rule: list_induct2) auto
  show "view (hcat A B @ hcat C D) 0 0 n = A"
    using l r by (simp add: view_def map_take_hcat)
  show "view (hcat A B @ hcat C D) 0 n n = B"
    using l r by (simp add: view_def t)
  show "view (hcat A B @ hcat C D) n 0 n = C"
    using l r by (simp add: view_def map_take_hcat)
  show "view (hcat A B @ hcat C D) n n n = D"
    using l r by (simp add: view_def t)
qed

lemma assign_row_left:
  "length A = length B \<Longrightarrow> length Q = length A \<Longrightarrow> \<forall>r \<in> set A. length r = n \<Longrightarrow>
   map2 (\<lambda>row srow. take 0 row @ srow @ drop (0 + n) row) (hcat A B) Q = hcat Q B"
proof (induction A B arbitrary: Q rule: list_induct2)
  case Nil then show ?case by simp
next
  case (Cons a A b B) then show ?case by (cases Q) auto
qed

lemma assign_row_right:
  "length A = length B \<Longrightarrow> length Q = length A \<Longrightarrow> \<forall>r \<in> set A. length r = n \<Longrightarrow>
   \<forall>r \<in> set B. length r = n \<Longrightarrow>
   map2 (\<lambda>row srow. take n row @ srow @ drop (n + n) row) (hcat A B) Q = hcat A Q"
proof (induction A B arbitrary: Q rule: list_induct2)
  case Nil then show ?case by simp
next
  case (Cons a A b B) then show ?case by (cases Q) auto
qed

lemma assign_blocks:
  assumes "square n A" "square n B" "square n C" "square n D"
      and "square n Q00" "square n Q01" "square n Q10" "square n Q11"
  shows "assign_view (assign_view (assign_view (assign_view (hcat A B @ hcat C D)
           0 0 n Q00) 0 n n Q01) n 0 n Q10) n n n Q11 = hcat Q00 Q01 @ hcat Q10 Q11"
proof -
  have l: "length A = n" "length B = n" "length C = n" "length D = n"
          "length Q00 = n" "length Q01 = n" "length Q10 = n" "length Q11 = n"
    and r: "\<forall>r \<in> set A. length r = n" "\<forall>r \<in> set B. length r = n"
           "\<forall>r \<in> set C. length r = n" "\<forall>r \<in> set D. length r = n"
           "\<forall>r \<in> set Q00. length r = n" "\<forall>r \<in> set Q01. length r = n"
           "\<forall>r \<in> set Q10. length r = n" "\<forall>r \<in> set Q11. length r = n"
    using assms by (auto simp: square_def)
  have 1: "assign_view (hcat A B @ hcat C D) 0 0 n Q00 = hcat Q00 B @ hcat C D"
    using l r by (simp add: assign_view_def assign_row_left[simplified])
  have 2: "assign_view (hcat Q00 B @ hcat C D) 0 n n Q01 = hcat Q00 Q01 @ hcat C D"
    using l r by (simp add: assign_view_def assign_row_right)
  have 3: "assign_view (hcat Q00 Q01 @ hcat C D) n 0 n Q10 = hcat Q00 Q01 @ hcat Q10 D"
    using l r by (simp add: assign_view_def assign_row_left[simplified])
  have 4: "assign_view (hcat Q00 Q01 @ hcat Q10 D) n n n Q11 = hcat Q00 Q01 @ hcat Q10 Q11"
    using l r by (simp add: assign_view_def assign_row_right)
  show ?thesis by (simp only: 1 2 3 4)
qed

lemma square_nested: "square (2 ^ d) (nested d p)"
proof (induction d arbitrary: p)
  case 0 show ?case by (simp add: square_def)
next
  case (Suc d)
  have h: "square (2 * n) (hcat A B @ hcat C D)"
    if "square n A" "square n B" "square n C" "square n D" for n and A B C D :: matrix
    using that by (auto simp: square_def hcat_def set_zip)
  show ?case using h[OF Suc Suc Suc Suc] by simp
qed

lemma square_np_full: "square n (np_full n n v)"
  by (simp add: square_def np_full_def)

lemma hcat_replicate:
  "hcat (replicate n a) (replicate n b) = replicate n (a @ b)"
  by (induction n) auto

lemma np_full_blocks:
  "np_full (2 * n) (2 * n) v = hcat (np_full n n v) (np_full n n v) @ hcat (np_full n n v) (np_full n n v)"
  unfolding np_full_def mult_2 replicate_add hcat_replicate by simp

lemma passes_np_full:
  "inc_cols_from dt n (left_shift1 dt (inc_rows_from dt n (left_shift1 dt (np_full (2 * n) (2 * n) v)))) =
   hcat (np_full n n (wrap dt (2 * wrap dt (2 * v))))
        (np_full n n (wrap dt (wrap dt (2 * wrap dt (2 * v)) + 1)))
   @ hcat (np_full n n (wrap dt (2 * wrap dt (wrap dt (2 * v) + 1))))
          (np_full n n (wrap dt (wrap dt (2 * wrap dt (wrap dt (2 * v) + 1)) + 1)))"
  unfolding np_full_def mult_2 replicate_add hcat_replicate
  by (simp add: inc_cols_from_def left_shift1_def inc_rows_from_def)

lemma wrap_int64_id: "- (2 ^ 63) \<le> v \<Longrightarrow> v < 2 ^ 63 \<Longrightarrow> wrap Int64 v = v"
proof -
  assume a: "- (2 ^ 63) \<le> v" "v < 2 ^ 63"
  have "(v + 2 ^ 63) mod 2 ^ 64 = v + 2 ^ 63"
    by (rule mod_pos_pos_trivial) (use a in auto)
  then show ?thesis by (simp only: wrap.simps)
qed


lemma length_np_full [simp]: "length (np_full r c v) = r"
  by (simp add: np_full_def)

lemma recursive_fill_np_full:
  "0 \<le> p \<Longrightarrow> (p + 1) * 4 ^ d \<le> 2 ^ 63 \<Longrightarrow>
   recursive_fill Int64 (np_full (2 ^ d) (2 ^ d) p) = Inr (nested d p)"
proof (induction d arbitrary: p)
  case 0
  show ?case by (subst recursive_fill.simps) (simp add: np_full_def)
next
  case (Suc d)
  define n :: nat where "n = 2 ^ d"
  have n: "0 < n" by (simp add: n_def)
  have b: "4 * p + 4 \<le> 2 ^ 63"
  proof -
    have "(p + 1) * 4 * 1 \<le> (p + 1) * 4 * 4 ^ d"
      using Suc.prems(1) by (intro mult_left_mono) auto
    with Suc.prems(2) show ?thesis by (simp add: algebra_simps)
  qed
  have w: "wrap Int64 (2 * p) = 2 * p" "wrap Int64 (2 * p + 1) = 2 * p + 1"
    "wrap Int64 (2 * (2 * p)) = 4 * p" "wrap Int64 (2 * (2 * p) + 1) = 4 * p + 1"
    "wrap Int64 (2 * (2 * p + 1)) = 4 * p + 2" "wrap Int64 (2 * (2 * p + 1) + 1) = 4 * p + 3"
    using Suc.prems(1) b by (subst wrap_int64_id; simp)+
  have bq: "(4 * p + q + 1) * 4 ^ d \<le> 2 ^ 63" if "0 \<le> q" "q \<le> 3" for q :: int
  proof -
    have "(4 * p + q + 1) * 4 ^ d \<le> (4 * p + 4) * 4 ^ d"
      using that by (intro mult_right_mono) auto
    also have "\<dots> = (p + 1) * 4 ^ Suc d" by (simp add: algebra_simps)
    also have "\<dots> \<le> 2 ^ 63" by (rule Suc.prems(2))
    finally show ?thesis .
  qed
  have ih: "recursive_fill Int64 (np_full n n (4 * p)) = Inr (nested d (4 * p))"
    "recursive_fill Int64 (np_full n n (4 * p + 1)) = Inr (nested d (4 * p + 1))"
    "recursive_fill Int64 (np_full n n (4 * p + 2)) = Inr (nested d (4 * p + 2))"
    "recursive_fill Int64 (np_full n n (4 * p + 3)) = Inr (nested d (4 * p + 3))"
    using Suc.IH[of "4 * p"] Suc.IH[of "4 * p + 1"] Suc.IH[of "4 * p + 2"] Suc.IH[of "4 * p + 3"]
      bq[of 0] bq[of 1] bq[of 2] bq[of 3] Suc.prems(1)
    by (simp_all add: n_def)
  have m2: "inc_cols_from Int64 n (left_shift1 Int64
              (inc_rows_from Int64 n (left_shift1 Int64 (np_full (2 * n) (2 * n) p)))) =
            hcat (np_full n n (4 * p)) (np_full n n (4 * p + 1))
            @ hcat (np_full n n (4 * p + 2)) (np_full n n (4 * p + 3))"
    using Suc.prems(1) b by (simp add: passes_np_full wrap_int64_id add.commute del: wrap.simps)
  have len: "(length (np_full (2 * n) (2 * n) p) = 1) = False"
    "(length (np_full (2 * n) (2 * n) p) = 0) = False"
    "length (np_full (2 * n) (2 * n) p) div 2 = n"
    using n by simp_all
  note sq = square_np_full[of n]
  note sn = square_nested[of d, folded n_def]
  have "recursive_fill Int64 (np_full (2 * n) (2 * n) p) =
        Inr (hcat (nested d (4 * p)) (nested d (4 * p + 1))
             @ hcat (nested d (4 * p + 2)) (nested d (4 * p + 3)))"
    by (subst recursive_fill.simps)
       (simp only: len if_False Let_def m2 view_blocks[OF sq sq sq sq] ih sum.case
        assign_blocks[OF sq sq sq sq sn sn sn sn])
  then show ?case by (simp add: n_def)
qed

lemma mset_concat_hcat:
  "length A = length B \<Longrightarrow> mset (concat (hcat A B)) = mset (concat A) + mset (concat B)"
  by (induction A B rule: list_induct2) auto

lemma mset_nested: "mset (concat (nested d p)) = mset_set {p * 4 ^ d ..< (p + 1) * 4 ^ d}"
proof (induction d arbitrary: p)
  case 0
  have "{p ..< p + 1} = {p}" by auto
  then show ?case by simp
next
  case (Suc d)
  let ?I = "\<lambda>q::int. {q * 4 ^ d ..< (q + 1) * 4 ^ d}"
  have l: "length (nested d a) = length (nested d b)" for a b
    using square_nested[of d a] square_nested[of d b] by (simp add: square_def)
  have e: "4 * p + 1 + 1 = 4 * p + 2" "4 * p + 2 + 1 = 4 * p + 3" "4 * p + 3 + 1 = 4 * (p + 1)"
    by simp_all
  have u: "mset_set {a ..< b} + mset_set {b ..< c} = mset_set {a ..< c}"
    if "a \<le> b" "b \<le> c" for a b c :: int
    using that by (subst mset_set_Union [symmetric]) (auto simp: ivl_disj_un)
  have "mset (concat (nested (Suc d) p)) =
        mset_set (?I (4 * p)) + mset_set (?I (4 * p + 1)) + mset_set (?I (4 * p + 2))
        + mset_set (?I (4 * p + 3))"
    by (simp add: mset_concat_hcat l Suc.IH)
  also have "\<dots> = mset_set {4 * p * 4 ^ d ..< 4 * (p + 1) * 4 ^ d}"
    unfolding e by (simp add: u mult_right_mono)
  also have "\<dots> = mset_set {p * 4 ^ Suc d ..< (p + 1) * 4 ^ Suc d}"
    by (simp add: algebra_simps)
  finally show ?case .
qed


lemma set_nested: "set (concat (nested d p)) = {p * 4 ^ d ..< (p + 1) * 4 ^ d}"
proof -
  have "set (concat (nested d p)) = set_mset (mset (concat (nested d p)))" by simp
  also have "\<dots> = {p * 4 ^ d ..< (p + 1) * 4 ^ d}"
    by (simp only: mset_nested) simp
  finally show ?thesis .
qed

lemma distinct_nested: "distinct (concat (nested d p))"
  unfolding distinct_count_atmost_1 set_nested mset_nested by (simp add: count_mset_set')

lemma ilog2_power: "ilog2 (2 ^ d) = d"
  by (induction d) (simp_all add: ilog2.simps)

lemma log2_trunc_power: "0 < o_nside \<Longrightarrow> log2_trunc (o_nside * 2 ^ d) o_nside = Inr (int d)"
proof -
  assume o: "0 < o_nside"
  define f where "f = o_nside * 2 ^ d"
  have pos: "0 < f" using o by (simp add: f_def)
  have q: "\<bar>f\<bar> div \<bar>o_nside\<bar> = 2 ^ d"
    using o by (simp add: abs_mult f_def)
  have le: "\<bar>o_nside\<bar> \<le> \<bar>f\<bar>"
    using o by (simp add: abs_mult f_def)
  have n: "nat ((2::int) ^ d) = 2 ^ d" by (simp add: nat_power_eq)
  have "log2_trunc f o_nside = Inr (int (ilog2 (nat (\<bar>f\<bar> div \<bar>o_nside\<bar>))))"
    using o pos le by (simp add: log2_trunc_def)
  also have "\<dots> = Inr (int d)"
    by (simp only: q n ilog2_power)
  finally show ?thesis by (simp only: f_def)
qed

lemma one_pixel_fragmentation_nested:
  assumes "0 < o_nside" "0 \<le> p" "(p + 1) * 4 ^ d \<le> 2 ^ 63"
  shows "one_pixel_fragmentation o_nside p (o_nside * 2 ^ d) = Inr (nested d p)"
proof -
  have "1 \<le> (4::int) ^ d" by simp
  then have "(p + 1) * 1 \<le> (p + 1) * 4 ^ d"
    using assms(2) by (intro mult_left_mono) auto
  then have "p < 2 ^ 63" using assms(3) by simp
  then have dt: "np_full_dtype p = Int64"
    using assms(2) by (simp add: np_full_dtype_def)
  show ?thesis
    by (simp add: one_pixel_fragmentation_def log2_trunc_power[OF assms(1)] dt
        recursive_fill_np_full[OF assms(2,3)])
qed

lemma length_view: "length (view m i j mid) = min mid (length m - i)"
  by (simp add: view_def)

lemma length_assign_view:
  "length s = min mid (length m - i) \<Longrightarrow> i \<le> length m \<Longrightarrow> length (assign_view m i j mid s) = length m"
  by (simp add: assign_view_def) 

lemma length_passes [simp]:
  "length (left_shift1 dt m) = length m"
  "length (inc_rows_from dt k m) = length m"
  "length (inc_cols_from dt k m) = length m"
  by (simp_all add: left_shift1_def inc_rows_from_def inc_cols_from_def)

lemma recursive_fill_total:
  "length matr \<noteq> 0 \<Longrightarrow> \<exists>M. recursive_fill dt matr = Inr M \<and> length M = length matr"
proof (induction dt matr rule: recursive_fill.induct)
  case (1 dt matr)
  show ?case
  proof (cases "length matr = 1")
    case True
    then show ?thesis by (subst recursive_fill.simps) simp
  next
    case False
    define mid where "mid = length matr div 2"
    define m2 where "m2 = inc_cols_from dt mid (left_shift1 dt (inc_rows_from dt mid (left_shift1 dt matr)))"
    have n: "2 \<le> length matr" using False "1.prems" by arith
    have mid: "0 < mid" "mid \<le> length matr" "mid \<le> length matr - mid"
      using n by (simp_all add: mid_def)
    have l2: "length m2 = length matr" by (simp add: m2_def)
    have lv: "length (view m2 i j mid) = mid" if "i = 0 \<or> i = mid" for i j
      using that mid by (auto simp: length_view l2)
    have nv: "length (view m2 i j mid) \<noteq> 0" if "i = 0 \<or> i = mid" for i j
      using lv[OF that] mid(1) by simp
    note nz = "1.prems"
    from "1.IH"(1)[OF False nz mid_def refl refl nv[unfolded m2_def]]
    obtain q00 where q00: "recursive_fill dt (view m2 0 0 mid) = Inr q00" "length q00 = mid"
      unfolding m2_def[symmetric] using lv[of 0 0] by auto
    from "1.IH"(2)[OF False nz mid_def refl refl q00(1)[unfolded m2_def] nv[unfolded m2_def]]
    obtain q01 where q01: "recursive_fill dt (view m2 0 mid mid) = Inr q01" "length q01 = mid"
      unfolding m2_def[symmetric] using lv[of 0 mid] by auto
    from "1.IH"(3)[OF False nz mid_def refl refl q00(1)[unfolded m2_def] q01(1)[unfolded m2_def]
        nv[unfolded m2_def]]
    obtain q10 where q10: "recursive_fill dt (view m2 mid 0 mid) = Inr q10" "length q10 = mid"
      unfolding m2_def[symmetric] using lv[of mid 0] by auto
    from "1.IH"(4)[OF False nz mid_def refl refl q00(1)[unfolded m2_def] q01(1)[unfolded m2_def]
        q10(1)[unfolded m2_def] nv[unfolded m2_def]]
    obtain q11 where q11: "recursive_fill dt (view m2 mid mid mid) = Inr q11" "length q11 = mid"
      unfolding m2_def[symmetric] using lv[of mid mid] by auto
    have la: "length (assign_view (assign_view (assign_view (assign_view m2
                     0 0 mid q00) 0 mid mid q01) mid 0 mid q10) mid mid mid q11) = length matr"
      using mid q00(2) q01(2) q10(2) q11(2) l2 by (simp add: length_assign_view)
    have "recursive_fill dt matr = Inr (assign_view (assign_view (assign_view (assign_view m2
                     0 0 mid q00) 0 mid mid q01) mid 0 mid q10) mid mid mid q11)"
      using False "1.prems" q00(1) q01(1) q10(1) q11(1)
      by (subst recursive_fill.simps) (simp add: Let_def mid_def[symmetric] m2_def[symmetric])
    with la show ?thesis by simp
  qed
qed

lemma distinct_concat_nth_inj:
  "distinct (concat M) \<Longrightarrow> r < length M \<Longrightarrow> r' < length M \<Longrightarrow> c < length (M ! r) \<Longrightarrow>
   c' < length (M ! r') \<Longrightarrow> M ! r ! c = M ! r' ! c' \<Longrightarrow> r = r' \<and> c = c'"
proof (induction M arbitrary: r r')
  case Nil then show ?case by simp
next
  case (Cons row M)
  have mem: "M ! k ! j \<in> set (concat M)" if "k < length M" "j < length (M ! k)" for k j
    using that by (auto intro!: bexI[of _ "M ! k"])
  have disj: "set row \<inter> set (concat M) = {}"
    using Cons.prems(1) by simp
  have cross: "row ! a \<noteq> M ! k ! j" if "a < length row" "k < length M" "j < length (M ! k)" for a k j
  proof -
    have "row ! a \<in> set row" using that(1) by (rule nth_mem)
    with mem[OF that(2,3)] disj show ?thesis by (metis IntI empty_iff)
  qed
  show ?case
  proof (cases r)
    case 0
    note r0 = 0
    show ?thesis
    proof (cases r')
      case 0
      with r0 Cons.prems show ?thesis by (auto simp: nth_eq_iff_index_eq)
    next
      case (Suc k)
      with r0 Cons.prems cross[of c k c'] show ?thesis by auto
    qed
  next
    case (Suc k)
    note rk = Suc
    show ?thesis
    proof (cases r')
      case 0
      with rk Cons.prems cross[of c' k c] show ?thesis by auto
    next
      case (Suc k')
      with rk Cons.prems Cons.IH[of k k'] show ?thesis by auto
    qed
  qed
qed

lemma set_concat_nth: 
  "set (concat M) = {M ! r ! c | r c. r < length M \<and> c < length (M ! r)}"
proof -
  have "x \<in> set (concat M) \<longleftrightarrow> (\<exists>r c. x = M ! r ! c \<and> r < length M \<and> c < length (M ! r))" for x
  proof
    assume "x \<in> set (concat M)"
    then obtain row where "row \<in> set M" "x \<in> set row" by auto
    then obtain r c where "r < length M" "row = M ! r" "c < length row" "x = row ! c"
      by (metis in_set_conv_nth)
    then show "\<exists>r c. x = M ! r ! c \<and> r < length M \<and> c < length (M ! r)" by blast
  next
    assume "\<exists>r c. x = M ! r ! c \<and> r < length M \<and> c < length (M ! r)"
    then obtain r c where "x = M ! r ! c" "r < length M" "c < length (M ! r)" by blast
    then have "M ! r \<in> set M" "x \<in> set (M ! r)" by simp_all
    then show "x \<in> set (concat M)" by auto
  qed
  then show ?thesis by blast
qed

lemma bij_betw_cells:
  assumes "square n M" "distinct (concat M)"
  shows "bij_betw (\<lambda>(r, c). M ! r ! c) ({..<n} \<times> {..<n}) (set (concat M))"
proof -
  have l: "length M = n" "\<And>r. r < n \<Longrightarrow> length (M ! r) = n"
    using assms(1) by (auto simp: square_def)
  have "inj_on (\<lambda>(r, c). M ! r ! c) ({..<n} \<times> {..<n})"
    using distinct_concat_nth_inj[OF assms(2)] l by (fastforce simp: inj_on_def)
  moreover have "(\<lambda>(r, c). M ! r ! c) ` ({..<n} \<times> {..<n}) = set (concat M)"
  proof -
    have "(\<lambda>(r, c). M ! r ! c) ` ({..<n} \<times> {..<n}) = {M ! r ! c | r c. r < n \<and> c < n}"
      by (auto simp: image_def)
    also have "\<dots> = {M ! r ! c | r c. r < length M \<and> c < length (M ! r)}"
    proof -
      have "(r < n \<and> c < n) = (r < length M \<and> c < length (M ! r))" for r c
        using l by auto
      then show ?thesis by simp
    qed
    finally show ?thesis by (simp only: set_concat_nth)
  qed
  ultimately show ?thesis by (simp add: bij_betw_def)
qed

subsection \<open>The correspondence matrix of a pixel\<close>

lemma one_pixel_fragmentation_depth:
  assumes "0 < o_nside" "o_nside \<le> f_nside"
  shows "one_pixel_fragmentation o_nside o_pix f_nside =
         recursive_fill (np_full_dtype o_pix)
           (np_full (2 ^ ilog2 (nat (f_nside div o_nside))) (2 ^ ilog2 (nat (f_nside div o_nside))) o_pix)"
  using assms by (simp add: one_pixel_fragmentation_def log2_trunc_def Let_def)

text \<open>
  C1, as amended. For every depth and every coarse pixel \<open>p \<ge> 0\<close> whose descendants fit
  in a signed 64-bit integer, \<open>(p + 1) * 4^depth \<le> 2^63\<close>, the builder called with the fine
  resolution \<open>o_nside * 2^depth\<close> returns a matrix of \<open>2^depth\<close> rows of \<open>2^depth\<close> cells
  whose cells are pairwise different and are exactly the pixels
  \<open>p * 4^depth, ..., p * 4^depth + 4^depth - 1\<close>: the map from a cell's position to its
  value is a bijection onto the descendants of \<open>p\<close>.
\<close>

theorem one_pixel_fragmentation_descendants:
  assumes "0 < o_nside" "0 \<le> p" "(p + 1) * 4 ^ depth \<le> 2 ^ 63"
  shows "\<exists>M. one_pixel_fragmentation o_nside p (o_nside * 2 ^ depth) = Inr M
           \<and> length M = 2 ^ depth \<and> (\<forall>row \<in> set M. length row = 2 ^ depth)
           \<and> distinct (concat M)
           \<and> set (concat M) = {p * 4 ^ depth ..< p * 4 ^ depth + 4 ^ depth}
           \<and> bij_betw (\<lambda>(r, c). M ! r ! c) ({..<2 ^ depth} \<times> {..<2 ^ depth})
                {p * 4 ^ depth ..< p * 4 ^ depth + 4 ^ depth}"
proof (intro exI conjI)
  have e: "(p + 1) * 4 ^ depth = p * 4 ^ depth + 4 ^ depth"
    by (simp add: algebra_simps)
  have sq: "square (2 ^ depth) (nested depth p)" by (rule square_nested)
  show "one_pixel_fragmentation o_nside p (o_nside * 2 ^ depth) = Inr (nested depth p)"
    by (rule one_pixel_fragmentation_nested[OF assms])
  show "length (nested depth p) = 2 ^ depth"
    using sq by (simp add: square_def)
  show "\<forall>row \<in> set (nested depth p). length row = 2 ^ depth"
    using sq by (simp add: square_def)
  show "distinct (concat (nested depth p))" by (rule distinct_nested)
  show s: "set (concat (nested depth p)) = {p * 4 ^ depth ..< p * 4 ^ depth + 4 ^ depth}"
    unfolding set_nested e ..
  show "bij_betw (\<lambda>(r, c). nested depth p ! r ! c) ({..<2 ^ depth} \<times> {..<2 ^ depth})
          {p * 4 ^ depth ..< p * 4 ^ depth + 4 ^ depth}"
    using bij_betw_cells[OF sq distinct_nested] unfolding s .
qed

theorem one_pixel_fragmentation_descendants_witness:
  "(0::int) < 2 \<and> (0::int) \<le> 5 \<and> ((5::int) + 1) * 4 ^ 2 \<le> 2 ^ 63
   \<and> (\<exists>M. one_pixel_fragmentation 2 5 (2 * 2 ^ 2) = Inr M \<and> length M = 2 ^ 2
          \<and> distinct (concat M) \<and> set (concat M) = {5 * 4 ^ 2 ..< 5 * 4 ^ 2 + 4 ^ 2})"
proof -
  have h: "(0::int) < 2" "(0::int) \<le> 5" "((5::int) + 1) * 4 ^ 2 \<le> 2 ^ 63" by simp_all
  from one_pixel_fragmentation_descendants[OF h] show ?thesis by auto
qed

text \<open>
  C1 as stated fails where the descendants do not fit: numpy stores the cells as
  \<^verbatim>\<open>int64\<close> and the two left shifts wrap around. The last pixel of resolution \<open>2^29\<close>,
  refined by one level, gives four negative cells.
\<close>

theorem one_pixel_fragmentation_int64_overflow:
  "(0::int) \<le> 3458764513820540927 \<and> (3458764513820540927::int) < 12 * 536870912 ^ 2
   \<and> one_pixel_fragmentation 536870912 3458764513820540927 (536870912 * 2 ^ 1) =
       Inr [[- 4611686018427387908, - 4611686018427387907],
            [- 4611686018427387906, - 4611686018427387905]]
   \<and> set (concat [[- 4611686018427387908, - 4611686018427387907],
                   [- 4611686018427387906, - 4611686018427387905 :: int]])
       \<noteq> {3458764513820540927 * 4 ^ 1 ..< 3458764513820540927 * 4 ^ 1 + 4 ^ 1}"
proof -
  have v: "one_pixel_fragmentation 536870912 3458764513820540927 (536870912 * 2 ^ 1) =
       Inr [[- 4611686018427387908, - 4611686018427387907],
            [- 4611686018427387906, - 4611686018427387905]]"
    by code_simp
  have out: "(- 4611686018427387908 :: int) \<notin>
      {3458764513820540927 * 4 ^ 1 ..< 3458764513820540927 * 4 ^ 1 + 4 ^ 1}"
    by simp
  have inn: "(- 4611686018427387908 :: int) \<in>
      set (concat [[- 4611686018427387908, - 4611686018427387907],
                   [- 4611686018427387906, - 4611686018427387905]])"
    by simp
  have ne: "set (concat [[- 4611686018427387908, - 4611686018427387907],
                   [- 4611686018427387906, - 4611686018427387905 :: int]])
       \<noteq> {3458764513820540927 * 4 ^ 1 ..< 3458764513820540927 * 4 ^ 1 + 4 ^ 1}"
    using out inn by blast
  have p: "(0::int) \<le> 3458764513820540927"
    "(3458764513820540927::int) < 12 * 536870912 ^ 2" by simp_all
  show ?thesis using v ne p by blast
qed

text \<open>
  C2, as amended. The builder does not check the ratio of the two resolutions and has no
  \<^verbatim>\<open>InvalidResolutionRatio\<close> error. For every pair of resolutions
  \<open>0 < o_nside \<le> f_nside \<le> 2^29\<close>, whether the ratio is a power of two or not, and for
  every pixel, it returns a matrix; the matrix has \<open>2^d\<close> rows, \<open>d\<close> being the integer part
  of the binary logarithm of the ratio, and is the matrix built for the fine resolution
  \<open>o_nside * 2^d\<close>. The bound \<open>2^29\<close> is HEALPix's largest resolution; up to it the
  depth that the code computes in double precision is the exact one.
\<close>

theorem one_pixel_fragmentation_no_ratio_check:
  assumes "0 < o_nside" "o_nside \<le> f_nside" "f_nside \<le> 2 ^ 29"
  shows "\<exists>M. one_pixel_fragmentation o_nside o_pix f_nside = Inr M
           \<and> length M = 2 ^ ilog2 (nat (f_nside div o_nside))
           \<and> one_pixel_fragmentation o_nside o_pix
                (o_nside * 2 ^ ilog2 (nat (f_nside div o_nside))) = Inr M"
proof -
  define d where "d = ilog2 (nat (f_nside div o_nside))"
  have le: "o_nside \<le> o_nside * 2 ^ d"
    using assms(1) by simp
  have q: "o_nside * 2 ^ d div o_nside = 2 ^ d"
    using assms(1) by simp
  have n: "nat ((2::int) ^ d) = 2 ^ d" by (simp add: nat_power_eq)
  have at_f: "one_pixel_fragmentation o_nside o_pix f_nside =
              recursive_fill (np_full_dtype o_pix) (np_full (2 ^ d) (2 ^ d) o_pix)"
    using one_pixel_fragmentation_depth[OF assms(1,2), of o_pix] by (simp only: d_def)
  have at_d: "one_pixel_fragmentation o_nside o_pix (o_nside * 2 ^ d) =
              recursive_fill (np_full_dtype o_pix) (np_full (2 ^ d) (2 ^ d) o_pix)"
    using one_pixel_fragmentation_depth[OF assms(1) le, of o_pix] by (simp only: q n ilog2_power)
  obtain M where M: "recursive_fill (np_full_dtype o_pix) (np_full (2 ^ d) (2 ^ d) o_pix) = Inr M"
      "length M = length (np_full (2 ^ d) (2 ^ d) o_pix)"
    using recursive_fill_total[of "np_full (2 ^ d) (2 ^ d) o_pix" "np_full_dtype o_pix"] by auto
  show ?thesis
    using at_f at_d M by (simp add: d_def)
qed

theorem one_pixel_fragmentation_no_ratio_check_witness:
  "(0::int) < 2 \<and> (2::int) \<le> 6 \<and> (6::int) \<le> 2 ^ 29
   \<and> (\<exists>M. one_pixel_fragmentation 2 0 6 = Inr M \<and> length M = 2
          \<and> one_pixel_fragmentation 2 0 (2 * 2 ^ 1) = Inr M)"
proof -
  have h: "(0::int) < 2" "(2::int) \<le> 6" "(6::int) \<le> 2 ^ 29" by simp_all
  have d: "ilog2 (nat (6 div 2)) = 1" by code_simp
  from one_pixel_fragmentation_no_ratio_check[OF h, of 0] show ?thesis
    unfolding d by simp
qed

text \<open>
  C2 as stated fails: the ratio \<open>6 / 2 = 3\<close> is not a power of two, and the builder returns
  the matrix of depth 1.
\<close>

theorem one_pixel_fragmentation_ratio_three:
  "one_pixel_fragmentation 2 0 6 = Inr [[0, 1], [2, 3]]"
  by code_simp

subsection \<open>Rasterization\<close>

lemma np_index_in_range:
  "0 \<le> i \<Longrightarrow> i < int (length h) \<Longrightarrow> np_index h i = Inr (nat i)"
  by (simp add: np_index_def)

lemma np_take_in_range:
  "\<forall>i \<in> set is. 0 \<le> i \<and> i < int (length h) \<Longrightarrow> np_take h is = Inr (map (\<lambda>i. h ! nat i) is)"
  by (induction "is") (simp_all add: np_index_in_range)

lemma flat_arr2matr_in_range:
  "\<forall>i \<in> set (concat m). 0 \<le> i \<and> i < int (length h) \<Longrightarrow>
   flat_arr2matr h m = Inr (map (map (\<lambda>i. h ! nat i)) m)"
  by (induction m) (simp_all add: np_take_in_range)

lemma np_take_length: "np_take h is = Inr vs \<Longrightarrow> length vs = length is"
  by (induction "is" arbitrary: vs) (auto split: sum.splits)

lemma np_take_set: "np_take h is = Inr vs \<Longrightarrow> set vs \<subseteq> set h"
proof (induction "is" arbitrary: vs)
  case Nil then show ?case by simp
next
  case (Cons i "is")
  then show ?case
    by (auto simp: np_index_def Let_def split: sum.splits if_splits)
qed

lemma flat_arr2matr_set:
  "flat_arr2matr h m = Inr img \<Longrightarrow> set (concat img) \<subseteq> set h"
proof (induction m arbitrary: img)
  case Nil then show ?case by simp
next
  case (Cons row m)
  from Cons.prems obtain img_row img' where
    p: "np_take h row = Inr img_row" "flat_arr2matr h m = Inr img'" "img = img_row # img'"
    by (auto split: sum.splits)
  have "set (concat img) = set img_row \<union> set (concat img')"
    by (simp add: p(3))
  with np_take_set[OF p(1)] Cons.IH[OF p(2)] show ?case by blast
qed

lemma np_index_bound: "np_index h i = Inr j \<Longrightarrow> j < length h"
  by (auto simp: np_index_def Let_def split: if_splits)

lemma np_put_set:
  "np_put h is v = Inr h' \<Longrightarrow> set h' \<subseteq> insert v (set h)"
proof (induction "is" arbitrary: h)
  case Nil then show ?case by auto
next
  case (Cons i "is")
  from Cons.prems obtain j where j: "np_index h i = Inr j" "np_put (h[j := v]) is v = Inr h'"
    by (auto split: sum.splits)
  have "set (h[j := v]) \<subseteq> insert v (set h)" by (rule set_update_subset_insert)
  with Cons.IH[OF j(2)] show ?case by auto
qed

lemma draw_circles_loop_set:
  "draw_circles_loop hp nside pm flag h objs = Inr h' \<Longrightarrow> set h' \<subseteq> insert 1 (set h)"
proof (induction objs arbitrary: h)
  case Nil then show ?case by auto
next
  case (Cons ob objs)
  obtain ra dec radius where ob: "ob = (ra, dec, radius)" by (cases ob)
  show ?case
  proof (cases "flag \<and> vec2pix hp nside (ang2vec hp ra dec) \<notin> set (concat pm)")
    case True
    with Cons.prems ob have "draw_circles_loop hp nside pm flag h objs = Inr h'"
      by (simp add: Let_def)
    then show ?thesis by (rule Cons.IH)
  next
    case False
    have eq: "draw_circles_loop hp nside pm flag h (ob # objs) =
        (case np_put h (query_disc hp nside (ang2vec hp ra dec) radius) 1 of
           Inl e \<Rightarrow> Inl e
         | Inr h1 \<Rightarrow> draw_circles_loop hp nside pm flag h1 objs)"
      by (simp only: ob draw_circles_loop.simps Let_def if_not_P[OF False])
    from Cons.prems[unfolded eq] obtain h1 where
      h1: "np_put h (query_disc hp nside (ang2vec hp ra dec) radius) 1 = Inr h1"
        "draw_circles_loop hp nside pm flag h1 objs = Inr h'"
      by (auto split: sum.splits)
    from np_put_set[OF h1(1)] Cons.IH[OF h1(2)] show ?thesis by auto
  qed
qed

lemma draw_dots_binary:
  assumes "draw_dots hp ras decs nside pix_matr = Inr pic"
  shows "set (concat pic) \<subseteq> {0, 1}"
proof -
  from assms obtain h' where
    h: "np_put (replicate (nside2npix nside) 0) (radec2pix hp ras decs nside) 1 = Inr h'"
       "flat_arr2matr h' pix_matr = Inr pic"
    by (auto simp: draw_dots_def Let_def split: sum.splits)
  from np_put_set[OF h(1)] have "set h' \<subseteq> {0, 1}" by auto
  with flat_arr2matr_set[OF h(2)] show ?thesis by blast
qed

lemma draw_circles_binary:
  assumes "draw_circles hp ras decs radiuses nside pix_matr flag = Inr pic"
  shows "set (concat pic) \<subseteq> {0, 1}"
proof -
  from assms obtain h' objs where
    h: "draw_circles_loop hp nside pix_matr flag (replicate (nside2npix nside) 0) objs = Inr h'"
       "flat_arr2matr h' pix_matr = Inr pic"
    by (auto simp: draw_circles_def Let_def split: sum.splits)
  from draw_circles_loop_set[OF h(1)] have "set h' \<subseteq> {0, 1}" by auto
  with flat_arr2matr_set[OF h(2)] show ?thesis by blast
qed

lemma np_put_length: "np_put h is v = Inr h' \<Longrightarrow> length h' = length h"
proof (induction "is" arbitrary: h)
  case Nil then show ?case by simp
next
  case (Cons i "is")
  from Cons.prems obtain j where j: "np_index h i = Inr j" "np_put (h[j := v]) is v = Inr h'"
    by (auto split: sum.splits)
  from Cons.IH[OF j(2)] show ?case by simp
qed

lemma np_index_update [simp]: "np_index (h[j := v]) i = np_index h i"
  by (simp add: np_index_def)

lemma np_put_nth:
  "np_put h is v = Inr h' \<Longrightarrow> j < length h \<Longrightarrow>
   h' ! j = (if \<exists>i \<in> set is. np_index h i = Inr j then v else h ! j)"
proof (induction "is" arbitrary: h)
  case Nil then show ?case by simp
next
  case (Cons i "is")
  from Cons.prems obtain k where k: "np_index h i = Inr k" "np_put (h[k := v]) is v = Inr h'"
    by (auto split: sum.splits)
  have kb: "k < length h" using k(1) by (rule np_index_bound)
  from Cons.IH[OF k(2)] Cons.prems(2)
  have "h' ! j = (if \<exists>i \<in> set is. np_index h i = Inr j then v else h[k := v] ! j)"
    by simp
  then show ?case
    using k(1) kb Cons.prems(2) by (auto simp: nth_list_update)
qed

lemma np_put_valid:
  "\<forall>i \<in> set is. 0 \<le> i \<and> i < int (length h) \<Longrightarrow> \<exists>h'. np_put h is v = Inr h'"
  by (induction "is" arbitrary: h) (simp_all add: np_index_in_range)



text \<open>
  C4. A bitmap over the whole fine-resolution sphere is a numpy array of
  \<open>12 * (o_nside * 2^depth)^2\<close> cells, hence of at most \<open>2^63\<close>. For every such bitmap and the
  correspondence matrix \<open>M\<close> built for a valid coarse pixel, \<^verbatim>\<open>flat_arr2matr\<close> raises nothing
  and returns a matrix of the shape of \<open>M\<close> whose cell \<open>(r, c)\<close> is the bitmap's cell at the
  index \<open>M[r][c]\<close>, which is a pixel of the sphere.
\<close>

theorem flat_arr2matr_gather:
  assumes "0 < o_nside" "0 \<le> p" "p < 12 * o_nside * o_nside"
      and "length bitmap = nside2npix (o_nside * 2 ^ depth)"
      and "length bitmap \<le> 2 ^ 63"
      and "one_pixel_fragmentation o_nside p (o_nside * 2 ^ depth) = Inr M"
  shows "\<exists>img. flat_arr2matr bitmap M = Inr img \<and> length img = length M
           \<and> (\<forall>r < length M. length (img ! r) = length (M ! r)
                \<and> (\<forall>c < length (M ! r). 0 \<le> M ! r ! c \<and> M ! r ! c < int (length bitmap)
                       \<and> img ! r ! c = bitmap ! nat (M ! r ! c)))"
proof -
  have len: "int (length bitmap) = 12 * o_nside * o_nside * 4 ^ depth"
  proof -
    have "(4::int) ^ depth = 2 ^ depth * 2 ^ depth"
      by (simp add: power_mult_distrib[symmetric])
    then show ?thesis
      using assms(1) by (simp add: assms(4) nside2npix_def algebra_simps)
  qed
  have "(p + 1) * 4 ^ depth \<le> 12 * o_nside * o_nside * 4 ^ depth"
    using assms(3) by (intro mult_right_mono) auto
  then have top: "(p + 1) * 4 ^ depth \<le> int (length bitmap)"
    by (simp only: len)
  have "int (length bitmap) \<le> 2 ^ 63"
    using assms(5) by (metis of_nat_le_iff of_nat_numeral of_nat_power)
  with top have fit: "(p + 1) * 4 ^ depth \<le> 2 ^ 63" by linarith
  have M: "M = nested depth p"
    using one_pixel_fragmentation_nested[OF assms(1,2) fit] assms(6) by simp
  have rng: "\<forall>i \<in> set (concat M). 0 \<le> i \<and> i < int (length bitmap)"
  proof
    fix i assume "i \<in> set (concat M)"
    then have i: "p * 4 ^ depth \<le> i" "i < (p + 1) * 4 ^ depth"
      unfolding M set_nested by auto
    have "0 \<le> p * 4 ^ depth" using assms(2) by simp
    with i top show "0 \<le> i \<and> i < int (length bitmap)" by linarith
  qed
  have cell: "0 \<le> M ! r ! c \<and> M ! r ! c < int (length bitmap)"
    if "r < length M" "c < length (M ! r)" for r c
  proof -
    have "M ! r ! c \<in> set (concat M)"
      unfolding set_concat_nth using that by blast
    with rng show ?thesis by blast
  qed
  show ?thesis
    using flat_arr2matr_in_range[OF rng] cell
    by (intro exI[of _ "map (map (\<lambda>i. bitmap ! nat i)) M"]) simp
qed

theorem flat_arr2matr_gather_witness:
  "(0::int) < 1 \<and> (0::int) \<le> 2 \<and> (2::int) < 12 * 1 * 1
   \<and> one_pixel_fragmentation 1 2 (1 * 2 ^ 0) = Inr [[2]]
   \<and> (\<exists>img. flat_arr2matr [10, 11, 12, 13, 14, 15, 16, 17, 18, 19, 20, 21 :: nat] [[2]] = Inr img
          \<and> length img = 1 \<and> img ! 0 ! 0 = 12)"
proof -
  have h: "(0::int) < 1" "(0::int) \<le> 2" "(2::int) < 12 * 1 * 1" by simp_all
  have l: "length [10, 11, 12, 13, 14, 15, 16, 17, 18, 19, 20, 21 :: nat] = nside2npix (1 * 2 ^ 0)"
    by (simp add: nside2npix_def)
  have b: "length [10, 11, 12, 13, 14, 15, 16, 17, 18, 19, 20, 21 :: nat] \<le> 2 ^ 63" by simp
  have m: "one_pixel_fragmentation 1 2 (1 * 2 ^ 0) = Inr [[2]]" by code_simp
  from flat_arr2matr_gather[OF h l b m] m show ?thesis by auto
qed


text \<open>
  C10. Disc rasterization with one radius gives what it gives with the array, as long as
  the list of right ascensions, in which every radius is that number.
\<close>

theorem draw_circles_scalar_radius:
  "draw_circles hp ras decs (Scalar r) nside pix_matr centers_in_patch =
   draw_circles hp ras decs (Array (replicate (length ras) r)) nside pix_matr centers_in_patch"
  by (simp add: draw_circles_def)

text \<open>
  C9. Every cell of the image that the dot rasterization or the disc rasterization returns
  is 0 or 1: a pixel covered by several discs or dots is set to 1, never counted.
\<close>

theorem rasterization_binary:
  "(draw_dots hp ras decs nside pix_matr = Inr pic \<longrightarrow> set (concat pic) \<subseteq> {0, 1})
   \<and> (draw_circles hp' ras' decs' radiuses nside' pix_matr' centers_in_patch = Inr pic'
        \<longrightarrow> set (concat pic') \<subseteq> {0, 1})"
  using draw_dots_binary draw_circles_binary by blast

lemma toy_simps [simp]:
  "radec2pix toy_pixelizer ras decs nside = ras"
  "ang2vec toy_pixelizer ra dec = ra"
  "vec2pix toy_pixelizer nside vec = vec"
  "query_disc toy_pixelizer nside vec radius = [vec - radius .. vec + radius]"
  by (simp_all add: toy_pixelizer_def)

lemma zeros12: "replicate (nside2npix 1) (0::int) = [0,0,0,0,0,0,0,0,0,0,0,0]"
  by (simp add: nside2npix_def eval_nat_numeral)

lemma toy_draw_dots: "draw_dots toy_pixelizer [0, 3, 3] [0, 0, 0] 1 [[0, 1], [2, 3]] = Inr [[1, 0], [0, 1]]"
  by (simp add: draw_dots_def zeros12 np_index_def Let_def)

lemma toy_draw_circles: "draw_circles toy_pixelizer [1, 2] [0, 0] (Scalar 1) 1 [[0, 1], [2, 3]] False = Inr [[1, 1], [1, 1]]"
  by (simp add: draw_circles_def zeros12 np_index_def Let_def upto.simps)

theorem rasterization_binary_witness:
  "draw_dots toy_pixelizer [0, 3, 3] [0, 0, 0] 1 [[0, 1], [2, 3]] = Inr [[1, 0], [0, 1]]
   \<and> set (concat [[1, 0], [0, 1 :: int]]) \<subseteq> {0, 1}
   \<and> draw_circles toy_pixelizer [1, 2] [0, 0] (Scalar 1) 1 [[0, 1], [2, 3]] False = Inr [[1, 1], [1, 1]]
   \<and> set (concat [[1, 1], [1, 1 :: int]]) \<subseteq> {0, 1}"
  using rasterization_binary[of toy_pixelizer "[0, 3, 3]" "[0, 0, 0]" 1 "[[0, 1], [2, 3]]" "[[1, 0], [0, 1]]"
      toy_pixelizer "[1, 2]" "[0, 0]" "Scalar 1" 1 "[[0, 1], [2, 3]]" False "[[1, 1], [1, 1]]"] toy_draw_dots toy_draw_circles
  by simp


theorem draw_circles_scalar_radius_witness:
  "draw_circles toy_pixelizer [1, 2] [0, 0] (Scalar 1) 1 [[0, 1], [2, 3]] False =
   draw_circles toy_pixelizer [1, 2] [0, 0] (Array [1, 1]) 1 [[0, 1], [2, 3]] False
   \<and> draw_circles toy_pixelizer [1, 2] [0, 0] (Array [1, 1]) 1 [[0, 1], [2, 3]] False = Inr [[1, 1], [1, 1]]"
proof -
  have a: "draw_circles toy_pixelizer [1, 2] [0, 0] (Array [1, 1]) 1 [[0, 1], [2, 3]] False = Inr [[1, 1], [1, 1]]"
    by (simp add: draw_circles_def zeros12 np_index_def Let_def upto.simps)
  from draw_circles_scalar_radius[of toy_pixelizer "[1, 2]" "[0, 0]" 1 1 "[[0, 1], [2, 3]]" False] a
  show ?thesis by (simp add: eval_nat_numeral)
qed

subsection \<open>Slices, windows and positions\<close>

lemma py_slice_take_drop: "\<exists>a k. py_slice xs start stop = take k (drop a xs)"
  unfolding py_slice_def Let_def by blast

lemma py_slice_nonneg:
  "0 \<le> a \<Longrightarrow> 0 \<le> k \<Longrightarrow> py_slice xs a (a + k) = take (nat k) (drop (nat a) xs)"
proof -
  assume a: "0 \<le> a" and k: "0 \<le> k"
  show ?thesis
  proof (cases "a \<le> int (length xs)")
    case True
    have m: "nat (min (a + k) (int (length xs)) - a) = min (nat k) (length xs - nat a)"
      using a k True by (auto simp: min_def)
    have t: "take (min m (length ys)) ys = take m ys" for m and ys :: "'a list"
      by (cases "m \<le> length ys") (simp_all add: min_def)
    have "py_slice xs a (a + k) = take (min (nat k) (length xs - nat a)) (drop (nat a) xs)"
      using a k True m by (simp add: py_slice_def Let_def min_absorb1)
    also have "\<dots> = take (nat k) (drop (nat a) xs)"
      using t[of "nat k" "drop (nat a) xs"] by simp
    finally show ?thesis .
  next
    case False
    then show ?thesis
      using a k by (simp add: py_slice_def Let_def)
  qed
qed

lemma window_nonneg:
  "0 \<le> x \<Longrightarrow> 0 \<le> y \<Longrightarrow> 0 \<le> ps \<Longrightarrow>
   window pic x y ps = map (\<lambda>row. take (nat ps) (drop (nat y) row)) (take (nat ps) (drop (nat x) pic))"
  by (simp add: window_def py_slice_nonneg)

lemma distinct_concat_take_drop:
  "distinct (concat M) \<Longrightarrow> distinct (concat (take k (drop a M)))"
proof -
  assume d: "distinct (concat M)"
  have "concat M = concat (take a M) @ concat (drop a M)"
    by (metis append_take_drop_id concat_append)
  with d have d1: "distinct (concat (drop a M))" by simp
  have "concat (drop a M) = concat (take k (drop a M)) @ concat (drop k (drop a M))"
    by (metis append_take_drop_id concat_append)
  with d1 show ?thesis by simp
qed

lemma distinct_concat_map_sub:
  assumes "distinct (concat M)" "\<And>row. row \<in> set M \<Longrightarrow> \<exists>a k. f row = take k (drop a row)"
  shows "distinct (concat (map f M))"
  using assms
proof (induction M)
  case Nil then show ?case by simp
next
  case (Cons row M)
  have "row \<in> set (row # M)" by simp
  from Cons.prems(2)[OF this] obtain a k where f: "f row = take k (drop a row)" by blast
  have s: "set (f r) \<subseteq> set r" if "r \<in> set (row # M)" for r
  proof -
    from Cons.prems(2)[OF that] obtain a k where "f r = take k (drop a r)" by blast
    moreover have "set (take k (drop a r)) \<subseteq> set (drop a r)" by (rule set_take_subset)
    moreover have "set (drop a r) \<subseteq> set r" by (rule set_drop_subset)
    ultimately show ?thesis by simp
  qed
  have d0: "distinct row" "distinct (concat M)" "set row \<inter> set (concat M) = {}"
    using Cons.prems(1) by simp_all
  have d1: "distinct (f row)" using d0(1) f by simp
  have d2: "distinct (concat (map f M))"
    by (rule Cons.IH[OF d0(2)]) (rule Cons.prems(2), simp)
  have sub: "set (concat (map f M)) \<subseteq> set (concat M)"
  proof
    fix v assume "v \<in> set (concat (map f M))"
    then obtain r where r: "r \<in> set M" "v \<in> set (f r)" by auto
    with s[of r] have "v \<in> set r" by auto
    with r(1) show "v \<in> set (concat M)" by auto
  qed
  have "set (f row) \<subseteq> set row" using s by simp
  with sub d0(3) have d3: "set (f row) \<inter> set (concat (map f M)) = {}" by blast
  show ?case using d1 d2 d3 by simp
qed

lemma distinct_window:
  assumes "distinct (concat M)"
  shows "distinct (concat (window M x y s))"
proof -
  obtain a k where r: "py_slice M x (x + s) = take k (drop a M)"
    using py_slice_take_drop by blast
  have "distinct (concat (take k (drop a M)))"
    using assms by (rule distinct_concat_take_drop)
  then show ?thesis
    unfolding window_def r by (rule distinct_concat_map_sub) (rule py_slice_take_drop)
qed

lemma filter_eq_upt: "filter (\<lambda>j'. j' = j) [0..<n] = (if j < n then [j] else [])"
  by (induction n) auto

lemma filter_upt_single:
  assumes "j < n" "\<And>j'. j' < n \<Longrightarrow> P j' \<longleftrightarrow> j' = j"
  shows "filter P [0..<n] = [j]"
proof -
  have "filter P [0..<n] = filter (\<lambda>j'. j' = j) [0..<n]"
    by (rule filter_cong) (use assms(2) in auto)
  with assms(1) show ?thesis by (simp add: filter_eq_upt)
qed

lemma concat_map_upt_single:
  assumes "i < n" "\<And>i'. i' < n \<Longrightarrow> i' \<noteq> i \<Longrightarrow> f i' = []"
  shows "concat (map f [0..<n]) = f i"
  using assms
proof (induction n)
  case 0 then show ?case by simp
next
  case (Suc n)
  show ?case
  proof (cases "i = n")
    case True
    have "concat (map f [0..<n]) = []"
      using Suc.prems(2) True by auto
    then show ?thesis using True by simp
  next
    case False
    then have "i < n" using Suc.prems(1) by simp
    then have "concat (map f [0..<n]) = f i"
      using Suc.IH Suc.prems(2) by simp
    moreover have "f n = []" using Suc.prems(2)[of n] False by simp
    ultimately show ?thesis by simp
  qed
qed

lemma np_where_unique:
  assumes "distinct (concat W)" "i < length W" "j < length (W ! i)" "W ! i ! j = v"
  shows "np_where W v = [(i, j)]"
proof -
  have inj: "i' = i \<and> j' = j" if "i' < length W" "j' < length (W ! i')" "W ! i' ! j' = v" for i' j'
    using distinct_concat_nth_inj[OF assms(1) that(1) assms(2) that(2) assms(3)] that(3) assms(4)
    by simp
  have row: "filter (\<lambda>j'. W ! i ! j' = v) [0..<length (W ! i)] = [j]"
  proof (rule filter_upt_single[OF assms(3)])
    fix j' assume j': "j' < length (W ! i)"
    show "(W ! i ! j' = v) = (j' = j)"
    proof
      assume "W ! i ! j' = v"
      from inj[OF assms(2) j' this] show "j' = j" by simp
    next
      assume "j' = j"
      then show "W ! i ! j' = v" by (simp only: assms(4))
    qed
  qed
  have other: "map (\<lambda>j'. (i', j')) (filter (\<lambda>j'. W ! i' ! j' = v) [0..<length (W ! i')]) = []"
    if "i' < length W" "i' \<noteq> i" for i'
  proof -
    have "W ! i' ! j' \<noteq> v" if "j' < length (W ! i')" for j'
      using inj[OF \<open>i' < length W\<close> that] \<open>i' \<noteq> i\<close> by blast
    then have "filter (\<lambda>j'. W ! i' ! j' = v) [0..<length (W ! i')] = []"
      by (simp add: filter_empty_conv)
    then show ?thesis by simp
  qed
  have "np_where W v = map (\<lambda>j'. (i, j')) (filter (\<lambda>j'. W ! i ! j' = v) [0..<length (W ! i)])"
    unfolding np_where_def by (rule concat_map_upt_single[OF assms(2)]) (rule other)
  then show ?thesis by (simp add: row)
qed

lemma locate_all_window:
  assumes "distinct (concat W)" "\<forall>r \<in> set cur. src_pix11 r \<in> set (concat W)"
  shows "\<exists>ls. locate_all W cur = Inr ls \<and> map loc_source ls = cur
           \<and> (\<forall>l \<in> set ls. loc_x l < length W \<and> loc_y l < length (W ! loc_x l)
                  \<and> W ! loc_x l ! loc_y l = src_pix11 (loc_source l))"
  using assms(2)
proof (induction cur)
  case Nil then show ?case by simp
next
  case (Cons r cur)
  from Cons.prems have "src_pix11 r \<in> set (concat W)" by simp
  then obtain i j where ij: "i < length W" "j < length (W ! i)" "W ! i ! j = src_pix11 r"
    unfolding set_concat_nth by auto
  have l: "locate W r = Inr \<lparr> loc_source = r, loc_x = i, loc_y = j \<rparr>"
    by (simp add: locate_def np_where_unique[OF assms(1) ij])
  from Cons.IH Cons.prems obtain ls where ls: "locate_all W cur = Inr ls" "map loc_source ls = cur"
    "\<forall>l \<in> set ls. loc_x l < length W \<and> loc_y l < length (W ! loc_x l)
        \<and> W ! loc_x l ! loc_y l = src_pix11 (loc_source l)"
    by auto
  show ?case
    using l ls ij by (intro exI[of _ "\<lparr> loc_source = r, loc_x = i, loc_y = j \<rparr> # ls"]) simp
qed

lemma src_on_batch_loop_aligned:
  assumes "distinct (concat W)"
  shows "\<exists>output. src_on_batch_loop patch_line W cats = Inr output
           \<and> list_all2 (aligned W (pl_pix2 patch_line)) cats output"
proof (induction cats)
  case Nil show ?case by simp
next
  case (Cons entry cats)
  obtain name cat where entry: "entry = (name, cat)" by (cases entry)
  define cur where "cur = filter (\<lambda>r. src_pix11 r \<in> set (concat W))
                            (filter (\<lambda>r. src_pix2 r = pl_pix2 patch_line) cat)"
  have cur: "cur = filter (\<lambda>r. src_pix2 r = pl_pix2 patch_line \<and> src_pix11 r \<in> set (concat W)) cat"
    by (simp add: cur_def conj_commute)
  have "\<forall>r \<in> set cur. src_pix11 r \<in> set (concat W)" by (simp add: cur_def)
  from locate_all_window[OF assms this] obtain ls where
    ls: "locate_all W cur = Inr ls" "map loc_source ls = cur"
      "\<forall>l \<in> set ls. loc_x l < length W \<and> loc_y l < length (W ! loc_x l)
        \<and> W ! loc_x l ! loc_y l = src_pix11 (loc_source l)"
    by blast
  have uniq: "loc_x l = i \<and> loc_y l = j"
    if "l \<in> set ls" "i < length W" "j < length (W ! i)" "W ! i ! j = src_pix11 (loc_source l)" for l i j
  proof -
    from ls(3) that(1) have p: "loc_x l < length W" "loc_y l < length (W ! loc_x l)"
      "W ! loc_x l ! loc_y l = src_pix11 (loc_source l)" by auto
    from distinct_concat_nth_inj[OF assms p(1) that(2) p(2) that(3)] p(3) that(4)
    show ?thesis by simp
  qed
  have al: "aligned W (pl_pix2 patch_line) entry (name, ls)"
    unfolding aligned_def
  proof (intro conjI ballI allI impI)
    show "fst (name, ls) = fst entry" by (simp add: entry)
    show "map loc_source (snd (name, ls)) =
          filter (\<lambda>r. src_pix2 r = pl_pix2 patch_line \<and> src_pix11 r \<in> set (concat W)) (snd entry)"
      using ls(2) by (simp only: entry cur snd_conv)
  next
    fix l assume "l \<in> set (snd (name, ls))"
    then have l: "l \<in> set ls" by simp
    with ls(3) show "loc_x l < length W" "loc_y l < length (W ! loc_x l)"
      "W ! loc_x l ! loc_y l = src_pix11 (loc_source l)" by blast+
    fix i j assume "i < length W \<and> j < length (W ! i) \<and> W ! i ! j = src_pix11 (loc_source l)"
    with uniq[OF l] show "loc_x l = i" "loc_y l = j" by blast+
  qed
  from Cons.IH obtain rest where out: "src_on_batch_loop patch_line W cats = Inr rest"
    "list_all2 (aligned W (pl_pix2 patch_line)) cats rest" by blast
  have "src_on_batch_loop patch_line W (entry # cats) = Inr ((name, ls) # rest)"
    using ls(1) out(1) by (simp add: entry Let_def cur_def del: set_concat)
  with al out(2) show ?case by simp
qed

lemma window_cells:
  assumes "0 \<le> x" "0 \<le> y"
  shows "length (window M x y (int s)) = min s (length M - nat x)"
    and "i < length (window M x y (int s)) \<Longrightarrow>
         length (window M x y (int s) ! i) = min s (length (M ! (nat x + i)) - nat y)"
    and "i < length (window M x y (int s)) \<Longrightarrow> j < length (window M x y (int s) ! i) \<Longrightarrow>
         window M x y (int s) ! i ! j = M ! (nat x + i) ! (nat y + j)"
proof -
  have w: "window M x y (int s) = map (\<lambda>row. take s (drop (nat y) row)) (take s (drop (nat x) M))"
    using window_nonneg[OF assms, of "int s" M] by simp
  show l: "length (window M x y (int s)) = min s (length M - nat x)"
    unfolding w by simp
  {
    assume i: "i < length (window M x y (int s))"
    then have i': "i < s" "nat x + i < length M" unfolding l by arith+
    have ix: "nat x \<le> length M" "i < length (drop (nat x) M)" "i < length (take s (drop (nat x) M))"
      using i' by simp_all
    have "take s (drop (nat x) M) ! i = drop (nat x) M ! i" using i'(1) by simp
    also have "\<dots> = M ! (nat x + i)" using ix(1) by (simp add: nth_drop)
    finally have ri: "take s (drop (nat x) M) ! i = M ! (nat x + i)" .
    have row: "window M x y (int s) ! i = take s (drop (nat y) (M ! (nat x + i)))"
      unfolding w using ix(3) by (simp add: ri)
    show "length (window M x y (int s) ! i) = min s (length (M ! (nat x + i)) - nat y)"
      unfolding row by (simp add: min.commute)
    assume j: "j < length (window M x y (int s) ! i)"
    then have j': "j < s" "nat y + j < length (M ! (nat x + i))" unfolding row by (simp, simp, arith)
    show "window M x y (int s) ! i ! j = M ! (nat x + i) ! (nat y + j)"
      unfolding row using j' by simp
  }
qed

lemma window_patch_cell:
  assumes "0 \<le> pl_x patch_line" "0 \<le> pl_y patch_line"
  shows "(i < length (window M (pl_x patch_line) (pl_y patch_line) (int s))
          \<and> j < length (window M (pl_x patch_line) (pl_y patch_line) (int s) ! i)
          \<and> window M (pl_x patch_line) (pl_y patch_line) (int s) ! i ! j = v)
         \<longleftrightarrow> patch_cell M patch_line s i j v"
proof -
  note wc = window_cells[OF assms, where M = M and s = s]
  show ?thesis
  proof
    assume a: "i < length (window M (pl_x patch_line) (pl_y patch_line) (int s))
          \<and> j < length (window M (pl_x patch_line) (pl_y patch_line) (int s) ! i)
          \<and> window M (pl_x patch_line) (pl_y patch_line) (int s) ! i ! j = v"
    then have i: "i < s" "nat (pl_x patch_line) + i < length M"
      unfolding wc(1) by arith+
    from a have "j < min s (length (M ! (nat (pl_x patch_line) + i)) - nat (pl_y patch_line))"
      using wc(2)[of i] by simp
    then have j: "j < s" "nat (pl_y patch_line) + j < length (M ! (nat (pl_x patch_line) + i))"
      by arith+
    from a wc(3)[of i j] have "M ! (nat (pl_x patch_line) + i) ! (nat (pl_y patch_line) + j) = v"
      by simp
    with i j show "patch_cell M patch_line s i j v" by (simp add: patch_cell_def)
  next
    assume p: "patch_cell M patch_line s i j v"
    then have pc: "i < s" "j < s" "nat (pl_x patch_line) + i < length M"
      "nat (pl_y patch_line) + j < length (M ! (nat (pl_x patch_line) + i))"
      by (simp_all add: patch_cell_def)
    from pc(1,3) have i: "i < length (window M (pl_x patch_line) (pl_y patch_line) (int s))"
      unfolding wc(1) by arith
    from pc(2,4) have j: "j < length (window M (pl_x patch_line) (pl_y patch_line) (int s) ! i)"
      unfolding wc(2)[OF i] by arith
    from p wc(3)[OF i j] have "window M (pl_x patch_line) (pl_y patch_line) (int s) ! i ! j = v"
      by (simp add: patch_cell_def)
    with i j show "i < length (window M (pl_x patch_line) (pl_y patch_line) (int s))
          \<and> j < length (window M (pl_x patch_line) (pl_y patch_line) (int s) ! i)
          \<and> window M (pl_x patch_line) (pl_y patch_line) (int s) ! i ! j = v" by simp
  qed
qed

lemma window_in_patch:
  assumes "0 \<le> pl_x patch_line" "0 \<le> pl_y patch_line"
  shows "v \<in> set (concat (window M (pl_x patch_line) (pl_y patch_line) (int s)))
         \<longleftrightarrow> in_patch M patch_line s v"
proof -
  let ?W = "window M (pl_x patch_line) (pl_y patch_line) (int s)"
  have "v \<in> set (concat ?W) \<longleftrightarrow> (\<exists>i j. i < length ?W \<and> j < length (?W ! i) \<and> ?W ! i ! j = v)"
    unfolding set_concat_nth by auto
  also have "\<dots> \<longleftrightarrow> (\<exists>i j. patch_cell M patch_line s i j v)"
    unfolding window_patch_cell[OF assms] ..
  also have "\<dots> \<longleftrightarrow> in_patch M patch_line s v"
    unfolding in_patch_def by (auto simp: patch_cell_def)
  finally show ?thesis .
qed

lemma aligned_window_patch:
  assumes "0 \<le> pl_x patch_line" "0 \<le> pl_y patch_line"
    and "aligned (window M (pl_x patch_line) (pl_y patch_line) (int s)) (pl_pix2 patch_line) entry result"
  shows "aligned_patch M patch_line s entry result"
proof -
  let ?W = "window M (pl_x patch_line) (pl_y patch_line) (int s)"
  note a = assms(3)[unfolded aligned_def]
  have f: "filter (\<lambda>r. src_pix2 r = pl_pix2 patch_line \<and> src_pix11 r \<in> set (concat ?W)) (snd entry) =
           filter (\<lambda>r. src_pix2 r = pl_pix2 patch_line \<and> in_patch M patch_line s (src_pix11 r)) (snd entry)"
    by (rule filter_cong[OF refl]) (simp only: window_in_patch[OF assms(1,2)])
  show ?thesis
    unfolding aligned_patch_def
  proof (intro conjI ballI allI impI)
    show "fst result = fst entry" using a by blast
    show "map loc_source (snd result) =
          filter (\<lambda>r. src_pix2 r = pl_pix2 patch_line \<and> in_patch M patch_line s (src_pix11 r)) (snd entry)"
      using a unfolding f by blast
  next
    fix l assume l: "l \<in> set (snd result)"
    with a have p: "loc_x l < length ?W \<and> loc_y l < length (?W ! loc_x l)
           \<and> ?W ! loc_x l ! loc_y l = src_pix11 (loc_source l)"
      and u: "\<And>i j. i < length ?W \<and> j < length (?W ! i) \<and> ?W ! i ! j = src_pix11 (loc_source l)
                  \<Longrightarrow> loc_x l = i \<and> loc_y l = j"
      by blast+
    from p show "patch_cell M patch_line s (loc_x l) (loc_y l) (src_pix11 (loc_source l))"
      unfolding window_patch_cell[OF assms(1,2)] .
    fix i j assume "patch_cell M patch_line s i j (src_pix11 (loc_source l))"
    then have "i < length ?W \<and> j < length (?W ! i) \<and> ?W ! i ! j = src_pix11 (loc_source l)"
      unfolding window_patch_cell[OF assms(1,2)] .
    from u[OF this] show "loc_x l = i" "loc_y l = j" by simp_all
  qed
qed

text \<open>
  C6. Let the cells of the correspondence matrix be pairwise different, as they are in
  every matrix that the builder returns, and let the origin \<open>(x, y)\<close> of the patch be a
  pair of row and column numbers, \<open>0 \<le> x\<close> and \<open>0 \<le> y\<close>. Then the catalog aligner raises
  nothing and returns one entry per input catalog, in their order and under their names.
  The entry of a catalog holds, in their order, exactly the records whose coarse pixel is
  the patch's and whose fine pixel is a cell \<open>(x + i, y + j)\<close> of the matrix with
  \<open>i, j < 64\<close>, each with its \<open>(x, y)\<close> set to that \<open>(i, j)\<close>, the row and the column of the
  cell counted from the origin of the patch. The side of the patch is the 64 of the code.
\<close>

theorem src_on_batch_aligned:
  assumes "distinct (concat f_matr)" "0 \<le> pl_x patch_line" "0 \<le> pl_y patch_line"
  shows "\<exists>output. src_on_batch patch_line f_matr cats = Inr output
           \<and> list_all2 (aligned_patch f_matr patch_line 64) cats output"
proof -
  let ?W = "window f_matr (pl_x patch_line) (pl_y patch_line) 64"
  have d: "distinct (concat ?W)" by (rule distinct_window[OF assms(1)])
  from src_on_batch_loop_aligned[OF d, of patch_line cats] obtain rest where
    out: "src_on_batch_loop patch_line ?W cats = Inr rest"
      "list_all2 (aligned ?W (pl_pix2 patch_line)) cats rest" by blast
  have w: "window f_matr (pl_x patch_line) (pl_y patch_line) 64 =
           window f_matr (pl_x patch_line) (pl_y patch_line) (int 64)" by simp
  have "list_all2 (aligned_patch f_matr patch_line 64) cats rest"
    using out(2) unfolding w
    by (rule list_all2_mono) (rule aligned_window_patch[OF assms(2,3)])
  moreover have "src_on_batch patch_line f_matr cats = Inr rest"
    using out(1) by (simp add: src_on_batch_def Let_def)
  ultimately show ?thesis by blast
qed

text \<open>
  The example of the spec: in the matrix of the coarse pixel 0 at the resolutions 2 and 8
  the cell \<open>[3][2]\<close> is the fine pixel 14, and a record at that pixel gets \<open>(3, 2)\<close> in the
  patch of origin \<open>(0, 0)\<close>; records of another coarse pixel or of a fine pixel outside
  the matrix are dropped. In the patch of origin \<open>(1, 1)\<close> the same record gets \<open>(2, 1)\<close>,
  and a record at the cell \<open>[1][0]\<close>, left of the patch, is dropped. In a matrix of 66
  columns, and in one of 66 rows, the patch of origin \<open>(1, 1)\<close> ends with the column, or
  the row, 64: the record at 64 is kept, at the patch position 63, and the record at 65
  is dropped, as is the record before the origin.
\<close>

theorem src_on_batch_aligned_witness:
  "one_pixel_fragmentation 2 0 8 = Inr [[0, 1, 4, 5], [2, 3, 6, 7], [8, 9, 12, 13], [10, 11, 14, 15]]
   \<and> distinct (concat [[0, 1, 4, 5], [2, 3, 6, 7], [8, 9, 12, 13], [10, 11, 14, 15 :: int]])
   \<and> [[0, 1, 4, 5], [2, 3, 6, 7], [8, 9, 12, 13], [10, 11, 14, 15 :: int]] ! 3 ! 2 = 14
   \<and> src_on_batch \<lparr> pl_x = 0, pl_y = 0, pl_pix2 = 0, pl_n_src = 1 \<rparr>
        [[0, 1, 4, 5], [2, 3, 6, 7], [8, 9, 12, 13], [10, 11, 14, 15]]
        [(''PSZ2'', [\<lparr> src_pix2 = 0, src_pix11 = 14, src_other = () \<rparr>,
                     \<lparr> src_pix2 = 1, src_pix11 = 14, src_other = () \<rparr>,
                     \<lparr> src_pix2 = 0, src_pix11 = 99, src_other = () \<rparr>])]
       = Inr [(''PSZ2'', [\<lparr> loc_source = \<lparr> src_pix2 = 0, src_pix11 = 14, src_other = () \<rparr>,
                             loc_x = 3, loc_y = 2 \<rparr>])]
   \<and> list_all2 (aligned_patch [[0, 1, 4, 5], [2, 3, 6, 7], [8, 9, 12, 13], [10, 11, 14, 15]]
                  \<lparr> pl_x = 0, pl_y = 0, pl_pix2 = 0, pl_n_src = 1 \<rparr> 64)
        [(''PSZ2'', [\<lparr> src_pix2 = 0, src_pix11 = 14, src_other = () \<rparr>,
                     \<lparr> src_pix2 = 1, src_pix11 = 14, src_other = () \<rparr>,
                     \<lparr> src_pix2 = 0, src_pix11 = 99, src_other = () \<rparr>])]
        [(''PSZ2'', [\<lparr> loc_source = \<lparr> src_pix2 = 0, src_pix11 = 14, src_other = () \<rparr>,
                             loc_x = 3, loc_y = 2 \<rparr>])]
   \<and> src_on_batch \<lparr> pl_x = 1, pl_y = 1, pl_pix2 = 0, pl_n_src = 1 \<rparr>
        [[0, 1, 4, 5], [2, 3, 6, 7], [8, 9, 12, 13], [10, 11, 14, 15]]
        [(''PSZ2'', [\<lparr> src_pix2 = 0, src_pix11 = 14, src_other = () \<rparr>,
                     \<lparr> src_pix2 = 0, src_pix11 = 2, src_other = () \<rparr>]),
         (''ACT'', [\<lparr> src_pix2 = 0, src_pix11 = 3, src_other = () \<rparr>])]
       = Inr [(''PSZ2'', [\<lparr> loc_source = \<lparr> src_pix2 = 0, src_pix11 = 14, src_other = () \<rparr>,
                             loc_x = 2, loc_y = 1 \<rparr>]),
              (''ACT'', [\<lparr> loc_source = \<lparr> src_pix2 = 0, src_pix11 = 3, src_other = () \<rparr>,
                             loc_x = 0, loc_y = 0 \<rparr>])]
   \<and> list_all2 (aligned_patch [[0, 1, 4, 5], [2, 3, 6, 7], [8, 9, 12, 13], [10, 11, 14, 15]]
                  \<lparr> pl_x = 1, pl_y = 1, pl_pix2 = 0, pl_n_src = 1 \<rparr> 64)
        [(''PSZ2'', [\<lparr> src_pix2 = 0, src_pix11 = 14, src_other = () \<rparr>,
                     \<lparr> src_pix2 = 0, src_pix11 = 2, src_other = () \<rparr>]),
         (''ACT'', [\<lparr> src_pix2 = 0, src_pix11 = 3, src_other = () \<rparr>])]
        [(''PSZ2'', [\<lparr> loc_source = \<lparr> src_pix2 = 0, src_pix11 = 14, src_other = () \<rparr>,
                             loc_x = 2, loc_y = 1 \<rparr>]),
         (''ACT'', [\<lparr> loc_source = \<lparr> src_pix2 = 0, src_pix11 = 3, src_other = () \<rparr>,
                             loc_x = 0, loc_y = 0 \<rparr>])]
   \<and> distinct (concat (map (\<lambda>r. map (\<lambda>c. int (66 * r + c)) [0..<66]) [0..<2]))
   \<and> distinct (concat (map (\<lambda>r. map (\<lambda>c. int (2 * r + c)) [0..<2]) [0..<66]))
   \<and> src_on_batch \<lparr> pl_x = 1, pl_y = 1, pl_pix2 = 7, pl_n_src = 2 \<rparr>
        (map (\<lambda>r. map (\<lambda>c. int (66 * r + c)) [0..<66]) [0..<2])
        [(''PSZ2'', [\<lparr> src_pix2 = 7, src_pix11 = 66 * 1 + 65, src_other = () \<rparr>,
                     \<lparr> src_pix2 = 7, src_pix11 = 66 * 1 + 64, src_other = () \<rparr>,
                     \<lparr> src_pix2 = 7, src_pix11 = 66 * 1 + 0, src_other = () \<rparr>])]
       = Inr [(''PSZ2'', [\<lparr> loc_source = \<lparr> src_pix2 = 7, src_pix11 = 66 * 1 + 64, src_other = () \<rparr>,
                             loc_x = 0, loc_y = 63 \<rparr>])]
   \<and> src_on_batch \<lparr> pl_x = 1, pl_y = 1, pl_pix2 = 7, pl_n_src = 2 \<rparr>
        (map (\<lambda>r. map (\<lambda>c. int (2 * r + c)) [0..<2]) [0..<66])
        [(''PSZ2'', [\<lparr> src_pix2 = 7, src_pix11 = 2 * 65 + 1, src_other = () \<rparr>,
                     \<lparr> src_pix2 = 7, src_pix11 = 2 * 64 + 1, src_other = () \<rparr>,
                     \<lparr> src_pix2 = 7, src_pix11 = 2 * 0 + 1, src_other = () \<rparr>])]
       = Inr [(''PSZ2'', [\<lparr> loc_source = \<lparr> src_pix2 = 7, src_pix11 = 2 * 64 + 1, src_other = () \<rparr>,
                             loc_x = 63, loc_y = 0 \<rparr>])]"
proof -
  let ?M = "[[0, 1, 4, 5], [2, 3, 6, 7], [8, 9, 12, 13], [10, 11, 14, 15 :: int]]"
  let ?wide = "map (\<lambda>r. map (\<lambda>c. int (66 * r + c)) [0..<66]) [0..<2]"
  let ?tall = "map (\<lambda>r. map (\<lambda>c. int (2 * r + c)) [0..<2]) [0..<66]"
  let ?cats0 = "[(''PSZ2'', [\<lparr> src_pix2 = 0, src_pix11 = 14, src_other = () \<rparr>,
                     \<lparr> src_pix2 = 1, src_pix11 = 14, src_other = () \<rparr>,
                     \<lparr> src_pix2 = 0, src_pix11 = 99, src_other = () \<rparr>])]"
  let ?cats1 = "[(''PSZ2'', [\<lparr> src_pix2 = 0, src_pix11 = 14, src_other = () \<rparr>,
                     \<lparr> src_pix2 = 0, src_pix11 = 2, src_other = () \<rparr>]),
         (''ACT'', [\<lparr> src_pix2 = 0, src_pix11 = 3, src_other = () \<rparr>])]"
  let ?p0 = "\<lparr> pl_x = 0, pl_y = 0, pl_pix2 = 0, pl_n_src = 1 \<rparr>"
  let ?p1 = "\<lparr> pl_x = 1, pl_y = 1, pl_pix2 = 0, pl_n_src = 1 \<rparr>"
  have m: "one_pixel_fragmentation 2 0 8 = Inr ?M" by code_simp
  have d: "distinct (concat ?M)" by simp
  have c: "?M ! 3 ! 2 = 14" by simp
  have n0: "0 \<le> pl_x ?p0" "0 \<le> pl_y ?p0" by simp_all
  have n1: "0 \<le> pl_x ?p1" "0 \<le> pl_y ?p1" by simp_all
  have ev0: "src_on_batch ?p0 ?M ?cats0
       = Inr [(''PSZ2'', [\<lparr> loc_source = \<lparr> src_pix2 = 0, src_pix11 = 14, src_other = () \<rparr>,
                             loc_x = 3, loc_y = 2 \<rparr>])]"
    by code_simp
  have ev1: "src_on_batch ?p1 ?M ?cats1
       = Inr [(''PSZ2'', [\<lparr> loc_source = \<lparr> src_pix2 = 0, src_pix11 = 14, src_other = () \<rparr>,
                             loc_x = 2, loc_y = 1 \<rparr>]),
              (''ACT'', [\<lparr> loc_source = \<lparr> src_pix2 = 0, src_pix11 = 3, src_other = () \<rparr>,
                             loc_x = 0, loc_y = 0 \<rparr>])]"
    by code_simp
  from src_on_batch_aligned[OF d n0, of ?cats0] ev0
  have a0: "list_all2 (aligned_patch ?M ?p0 64) ?cats0
          [(''PSZ2'', [\<lparr> loc_source = \<lparr> src_pix2 = 0, src_pix11 = 14, src_other = () \<rparr>,
                             loc_x = 3, loc_y = 2 \<rparr>])]"
    by simp
  from src_on_batch_aligned[OF d n1, of ?cats1] ev1
  have a1: "list_all2 (aligned_patch ?M ?p1 64) ?cats1
          [(''PSZ2'', [\<lparr> loc_source = \<lparr> src_pix2 = 0, src_pix11 = 14, src_other = () \<rparr>,
                             loc_x = 2, loc_y = 1 \<rparr>]),
         (''ACT'', [\<lparr> loc_source = \<lparr> src_pix2 = 0, src_pix11 = 3, src_other = () \<rparr>,
                             loc_x = 0, loc_y = 0 \<rparr>])]"
    by simp
  have dw: "distinct (concat ?wide)" by code_simp
  have dt: "distinct (concat ?tall)" by code_simp
  have evw: "src_on_batch \<lparr> pl_x = 1, pl_y = 1, pl_pix2 = 7, pl_n_src = 2 \<rparr> ?wide
        [(''PSZ2'', [\<lparr> src_pix2 = 7, src_pix11 = 66 * 1 + 65, src_other = () \<rparr>,
                     \<lparr> src_pix2 = 7, src_pix11 = 66 * 1 + 64, src_other = () \<rparr>,
                     \<lparr> src_pix2 = 7, src_pix11 = 66 * 1 + 0, src_other = () \<rparr>])]
       = Inr [(''PSZ2'', [\<lparr> loc_source = \<lparr> src_pix2 = 7, src_pix11 = 66 * 1 + 64, src_other = () \<rparr>,
                             loc_x = 0, loc_y = 63 \<rparr>])]"
    by code_simp
  have evt: "src_on_batch \<lparr> pl_x = 1, pl_y = 1, pl_pix2 = 7, pl_n_src = 2 \<rparr> ?tall
        [(''PSZ2'', [\<lparr> src_pix2 = 7, src_pix11 = 2 * 65 + 1, src_other = () \<rparr>,
                     \<lparr> src_pix2 = 7, src_pix11 = 2 * 64 + 1, src_other = () \<rparr>,
                     \<lparr> src_pix2 = 7, src_pix11 = 2 * 0 + 1, src_other = () \<rparr>])]
       = Inr [(''PSZ2'', [\<lparr> loc_source = \<lparr> src_pix2 = 7, src_pix11 = 2 * 64 + 1, src_other = () \<rparr>,
                             loc_x = 63, loc_y = 0 \<rparr>])]"
    by code_simp
  show ?thesis
    using m d c ev0 a0 ev1 a1 dw dt evw evt by blast
qed

subsection \<open>Thinning a table\<close>

lemma subseq_every: "subseq (every k xs) xs"
proof (induction k xs rule: every.induct)
  case (1 k) show ?case by simp
next
  case (2 k x xs)
  have "subseq (every k (drop (k - 1) xs)) (drop (k - 1) xs)" by (rule 2)
  moreover have "subseq (drop (k - 1) xs) (take (k - 1) xs @ drop (k - 1) xs)"
    by (rule subseq_drop_many) simp
  ultimately have "subseq (every k (drop (k - 1) xs)) (take (k - 1) xs @ drop (k - 1) xs)"
    by (rule subseq_order.order_trans)
  then have "subseq (every k (drop (k - 1) xs)) xs"
    by (simp only: append_take_drop_id)
  then show ?case by simp
qed

lemma length_every: "0 < k \<Longrightarrow> length (every k xs) = (length xs + k - 1) div k"
proof (induction k xs rule: every.induct)
  case (1 k) then show ?case by simp
next
  case (2 k x xs)
  have ih: "length (every k (drop (k - 1) xs)) = (length xs - (k - 1) + k - 1) div k"
    using 2 by simp
  show ?case
  proof (cases "k - 1 \<le> length xs")
    case True
    define m where "m = length xs - (k - 1) + k - 1"
    have e: "length xs + k = m + k" using True 2(2) by (simp add: m_def)
    have "(m + k) div k = Suc (m div k)" using 2(2) by (simp add: div_add_self2)
    then have "(length xs + k) div k = Suc (m div k)" by (simp only: e)
    with ih show ?thesis by (simp add: m_def)
  next
    case False
    then have l: "length xs < k - 1" by simp
    then have "(length xs + k) div k = 1"
      using 2(2) by (simp add: le_div_geq)
    moreover have "(length xs - (k - 1) + k - 1) div k = 0" using l by simp
    ultimately show ?thesis using ih by simp
  qed
qed

lemma every_one: "every (Suc 0) xs = xs"
  by (induction xs) simp_all

lemma thinned_bounds:
  fixes n k :: nat
  assumes "0 < k" "k < n"
  shows "k \<le> (n + n div k - 1) div (n div k)" "(n + n div k - 1) div (n div k) \<le> 2 * k - 1"
proof -
  define s where "s = n div k"
  have s: "0 < s" using assms by (simp add: s_def div_greater_zero_iff)
  have lo: "s * k \<le> n" by (simp add: s_def)
  have hi: "n < (s + 1) * k"
    using assms(1) by (simp add: s_def dividend_less_times_div mult.commute)
  have "k * s \<le> n + s - 1" using lo s by (simp add: mult.commute)
  then show "k \<le> (n + n div k - 1) div (n div k)"
    unfolding s_def[symmetric] using s by (simp add: less_eq_div_iff_mult_less_eq)
  have "k + s \<le> k * s + 1"
  proof -
    have "(k - 1) * (s - 1) + k + s = k * s + 1"
      using assms(1) s by (cases k; cases s) (simp_all add: algebra_simps)
    then show ?thesis by linarith
  qed
  moreover define p where "p = k * s"
  moreover have "n < p + k" using hi by (simp add: p_def algebra_simps)
  ultimately have "n + s - 1 < 2 * p" using s by linarith
  then have "n + s - 1 < 2 * k * s" by (simp add: p_def)
  then have "(n + s - 1) div s < 2 * k"
    using s by (simp add: div_less_iff_less_mult)
  then show "(n + n div k - 1) div (n div k) \<le> 2 * k - 1"
    unfolding s_def[symmetric] by simp
qed

subsection \<open>Windows of an image with one cell set\<close>

lemma filter_nth_upt: "filter P xs = map (nth xs) (filter (\<lambda>j. P (xs ! j)) [0..<length xs])"
proof -
  have "filter P xs = filter P (map (nth xs) [0..<length xs])" by (simp add: map_nth)
  also have "\<dots> = map (nth xs) (filter (P \<circ> nth xs) [0..<length xs])" by (rule filter_map)
  finally show ?thesis by (simp add: comp_def)
qed

lemma filter_take_drop_single:
  assumes "c0 < length row" "\<And>c. c < length row \<Longrightarrow> P (row ! c) \<longleftrightarrow> c = c0"
  shows "filter P (take k (drop a row)) = (if a \<le> c0 \<and> c0 < a + k then [row ! c0] else [])"
proof -
  let ?ys = "take k (drop a row)"
  have len: "length ?ys = min k (length row - a)" by simp
  have lj: "j < length row - a \<and> j < k" if "j < length ?ys" for j
    using that by simp
  have nth: "?ys ! j = row ! (a + j)" if "j < length ?ys" for j
  proof -
    from lj[OF that] have "a \<le> length row" "j < k" by arith+
    then show ?thesis by simp
  qed
  have "filter (\<lambda>j. P (?ys ! j)) [0..<length ?ys] = filter (\<lambda>j. a + j = c0) [0..<length ?ys]"
  proof (rule filter_cong[OF refl])
    fix j assume "j \<in> set [0..<length ?ys]"
    then have j: "j < length ?ys" by simp
    from lj[OF j] have "a + j < length row" by arith
    from assms(2)[OF this] nth[OF j] show "P (?ys ! j) = (a + j = c0)" by simp
  qed
  also have "\<dots> = filter (\<lambda>j. j = c0 - a \<and> a \<le> c0) [0..<length ?ys]"
    by (rule filter_cong[OF refl]) auto
  also have "\<dots> = (if a \<le> c0 \<and> c0 - a < length ?ys then [c0 - a] else [])"
    by (cases "a \<le> c0") (simp_all add: filter_eq_upt)
  finally have f: "filter (\<lambda>j. P (?ys ! j)) [0..<length ?ys] =
       (if a \<le> c0 \<and> c0 - a < length ?ys then [c0 - a] else [])" .
  have c: "(a \<le> c0 \<and> c0 - a < length ?ys) = (a \<le> c0 \<and> c0 < a + k)"
    unfolding len using assms(1) by arith
  have g: "filter P ?ys = map (nth ?ys) (if a \<le> c0 \<and> c0 < a + k then [c0 - a] else [])"
    by (subst filter_nth_upt) (simp only: f c)
  show ?thesis
  proof (cases "a \<le> c0 \<and> c0 < a + k")
    case True
    then have "c0 - a < length ?ys" using c by simp
    from nth[OF this] True have "?ys ! (c0 - a) = row ! c0" by simp
    with True show ?thesis unfolding g by simp
  next
    case False
    then show ?thesis unfolding g by auto
  qed
qed

lemma concat_map_all_nil: "(\<And>x. x \<in> set xs \<Longrightarrow> f x = []) \<Longrightarrow> concat (map f xs) = []"
  by (induction xs) auto

lemma concat_map_nth_upt: "concat (map f xs) = concat (map (\<lambda>i. f (xs ! i)) [0..<length xs])"
proof -
  have "map f xs = map f (map (nth xs) [0..<length xs])" by (simp add: map_nth)
  then show ?thesis by (simp add: comp_def)
qed

lemma window_single_cell:
  assumes "r0 < length pic" "c0 < length (pic ! r0)"
    and cells: "\<And>r c. r < length pic \<Longrightarrow> c < length (pic ! r) \<Longrightarrow>
                  (pic ! r ! c \<noteq> (0::int)) \<longleftrightarrow> (r = r0 \<and> c = c0)"
  shows "filter (\<lambda>v. v \<noteq> 0) (concat (map (\<lambda>row. take k (drop b row)) (take k' (drop a pic)))) =
         (if a \<le> r0 \<and> r0 < a + k' \<and> b \<le> c0 \<and> c0 < b + k then [pic ! r0 ! c0] else [])"
proof -
  let ?R = "take k' (drop a pic)"
  let ?g = "\<lambda>row. filter (\<lambda>v. v \<noteq> 0) (take k (drop b row))"
  have lR: "i < length pic - a \<and> i < k'" if "i < length ?R" for i
    using that by simp
  have nR: "?R ! i = pic ! (a + i)" "a + i < length pic" if "i < length ?R" for i
  proof -
    from lR[OF that] have "a \<le> length pic" "i < k'" "a + i < length pic" by arith+
    then show "?R ! i = pic ! (a + i)" "a + i < length pic" by simp_all
  qed
  have zero_row: "?g (pic ! r) = []" if "r < length pic" "r \<noteq> r0" for r
  proof -
    have "v = 0" if "v \<in> set (pic ! r)" for v
    proof -
      from that obtain c where "c < length (pic ! r)" "v = pic ! r ! c"
        by (metis in_set_conv_nth)
      with cells[OF \<open>r < length pic\<close> this(1)] \<open>r \<noteq> r0\<close> show ?thesis by auto
    qed
    moreover have "set (take k (drop b (pic ! r))) \<subseteq> set (pic ! r)"
      by (meson set_take_subset set_drop_subset subset_trans)
    ultimately show ?thesis by (auto simp: filter_empty_conv)
  qed
  have the_row: "?g (pic ! r0) = (if b \<le> c0 \<and> c0 < b + k then [pic ! r0 ! c0] else [])"
    by (rule filter_take_drop_single[OF assms(2)]) (use cells[OF assms(1)] in auto)
  have "filter (\<lambda>v. v \<noteq> 0) (concat (map (\<lambda>row. take k (drop b row)) ?R)) = concat (map ?g ?R)"
    by (simp add: filter_concat comp_def)
  also have "\<dots> = concat (map (\<lambda>i. ?g (?R ! i)) [0..<length ?R])"
    by (rule concat_map_nth_upt)
  also have "\<dots> = (if a \<le> r0 \<and> r0 < a + k' then ?g (pic ! r0) else [])"
  proof (cases "a \<le> r0 \<and> r0 < a + k'")
    case True
    have len: "length ?R = min k' (length pic - a)" by simp
    have i0: "r0 - a < length ?R" unfolding len using True assms(1) by arith
    have "concat (map (\<lambda>i. ?g (?R ! i)) [0..<length ?R]) = ?g (?R ! (r0 - a))"
    proof (rule concat_map_upt_single[OF i0])
      fix i' assume i': "i' < length ?R" "i' \<noteq> r0 - a"
      then have "a + i' \<noteq> r0" using True by arith
      with zero_row[OF nR(2)[OF i'(1)]] nR(1)[OF i'(1)]
      show "?g (?R ! i') = []" by simp
    qed
    also have "?R ! (r0 - a) = pic ! r0"
      using nR(1)[OF i0] True by simp
    finally show ?thesis using True by simp
  next
    case False
    have "concat (map (\<lambda>i. ?g (?R ! i)) [0..<length ?R]) = []"
    proof (rule concat_map_all_nil)
      fix i assume "i \<in> set [0..<length ?R]"
      then have i: "i < length ?R" by simp
      from lR[OF i] False have "a + i \<noteq> r0" by arith
      with zero_row[OF nR(2)[OF i]] nR(1)[OF i]
      show "?g (?R ! i) = []" by simp
    qed
    with False show ?thesis by auto
  qed
  finally show ?thesis
    unfolding the_row by auto
qed

lemma set_window_subset: "set (concat (window pic x y s)) \<subseteq> set (concat pic)"
proof
  fix v assume "v \<in> set (concat (window pic x y s))"
  then obtain row where row: "row \<in> set (py_slice pic x (x + s))" "v \<in> set (py_slice row y (y + s))"
    by (auto simp: window_def)
  obtain a k where "py_slice pic x (x + s) = take k (drop a pic)"
    using py_slice_take_drop by blast
  with row(1) have r: "row \<in> set pic"
    by (metis in_set_dropD in_set_takeD)
  obtain a' k' where "py_slice row y (y + s) = take k' (drop a' row)"
    using py_slice_take_drop by blast
  with row(2) have "v \<in> set row"
    by (metis in_set_dropD in_set_takeD)
  with r show "v \<in> set (concat pic)" by auto
qed

lemma py_range_pos:
  "0 < s \<Longrightarrow> py_range 0 n s = Inr (map (\<lambda>k. int k * s) [0..<nat ((n + s - 1) div s)])"
  by (simp add: py_range_def)

lemma concat_map_if_product:
  "concat (map (\<lambda>x. concat (map (\<lambda>y. if A x \<and> B y then [g x y] else []) ys)) xs) =
   concat (map (\<lambda>x. map (g x) (filter B ys)) (filter A xs))"
proof -
  have inner: "concat (map (\<lambda>y. if A x \<and> B y then [g x y] else []) ys) =
               (if A x then map (g x) (filter B ys) else [])" for x
    by (induction ys) auto
  show ?thesis unfolding inner by (induction xs) auto
qed

lemma grid_nonneg: "0 < s \<Longrightarrow> x \<in> set (grid s) \<Longrightarrow> 0 \<le> x"
  by (auto simp: grid_def)

lemma list_ex_filter: "list_ex P xs \<longleftrightarrow> filter P xs \<noteq> []"
  by (simp add: list_ex_iff filter_empty_conv)

lemma scan_windows_single_cell:
  assumes "r0 < length pic" "c0 < length (pic ! r0)"
    and cells: "\<And>r c. r < length pic \<Longrightarrow> c < length (pic ! r) \<Longrightarrow>
                  (pic ! r ! c \<noteq> (0::int)) \<longleftrightarrow> (r = r0 \<and> c = c0)"
    and "0 < s" "0 < ps"
  shows "scan_windows pic s ps =
         Inr (concat (map (\<lambda>x. map (\<lambda>y. (x, y, 1))
                                 (filter (\<lambda>y. nat y \<le> c0 \<and> c0 < nat y + nat ps) (grid s)))
                          (filter (\<lambda>x. nat x \<le> r0 \<and> r0 < nat x + nat ps) (grid s))))"
proof -
  let ?A = "\<lambda>x. nat x \<le> r0 \<and> r0 < nat x + nat ps"
  let ?B = "\<lambda>y. nat y \<le> c0 \<and> c0 < nat y + nat ps"
  let ?body = "\<lambda>x y. let patch_pic = window pic x y ps
                 in if list_ex (\<lambda>v. v \<noteq> 0) (concat patch_pic)
                    then [(x, y, length (filter (\<lambda>v. v \<noteq> 0) (concat patch_pic)))]
                    else []"
  have body: "?body x y = (if ?A x \<and> ?B y then [(x, y, 1)] else [])"
    if "x \<in> set (grid s)" "y \<in> set (grid s)" for x y
  proof -
    have x: "0 \<le> x" and y: "0 \<le> y"
      using that grid_nonneg[OF assms(4)] by auto
    have w: "window pic x y ps =
             map (\<lambda>row. take (nat ps) (drop (nat y) row)) (take (nat ps) (drop (nat x) pic))"
      using x y assms(5) by (simp add: window_nonneg)
    have f: "filter (\<lambda>v. v \<noteq> 0) (concat (window pic x y ps)) =
             (if ?A x \<and> ?B y then [pic ! r0 ! c0] else [])"
      unfolding w
      using window_single_cell[OF assms(1,2) cells, where a = "nat x" and k' = "nat ps"
          and b = "nat y" and k = "nat ps"]
      by (simp only: conj_assoc)
    show ?thesis
      unfolding Let_def list_ex_filter f by simp
  qed
  have "concat (map (\<lambda>x. concat (map (?body x) (grid s))) (grid s)) =
        concat (map (\<lambda>x. concat (map (\<lambda>y. if ?A x \<and> ?B y then [(x, y, 1)] else []) (grid s))) (grid s))"
    by (intro arg_cong[where f = concat] map_cong refl) (simp only: body)
  also have "\<dots> = concat (map (\<lambda>x. map (\<lambda>y. (x, y, 1)) (filter ?B (grid s))) (filter ?A (grid s)))"
    by (rule concat_map_if_product)
  finally show ?thesis
    using assms(4) by (simp only: scan_windows_def py_range_pos sum.case grid_def)
qed

lemma scan_windows_all_zero:
  assumes "\<And>v. v \<in> set (concat pic) \<Longrightarrow> v = 0" "s \<noteq> 0"
  shows "scan_windows pic s ps = Inr []"
proof -
  have f: "list_ex (\<lambda>v. v \<noteq> 0) (concat (window pic x y ps)) = False" for x y
  proof -
    have "v = 0" if "v \<in> set (concat (window pic x y ps))" for v
      using assms(1) set_window_subset[of pic x y ps] that by blast
    then show ?thesis unfolding list_ex_iff by blast
  qed
  obtain xs where xs: "py_range 0 960 s = Inr xs"
    using assms(2) by (cases "0 < s") (simp_all add: py_range_def)
  have "concat (map (\<lambda>x. concat (map (\<lambda>y. []) xs)) xs) = ([] :: (int \<times> int \<times> nat) list)"
    by (intro concat_map_all_nil) simp
  then show ?thesis
    by (simp add: scan_windows_def xs Let_def f)
qed

lemma draw_dots_cells:
  assumes pix: "\<And>q. q \<in> set (radec2pix hp ras decs nside) \<Longrightarrow> 0 \<le> q \<and> q < int (nside2npix nside)"
    and mat: "\<And>v. v \<in> set (concat M) \<Longrightarrow> 0 \<le> v \<and> v < int (nside2npix nside)"
  shows "draw_dots hp ras decs nside M =
         Inr (map (map (\<lambda>v. if v \<in> set (radec2pix hp ras decs nside) then 1 else 0)) M)"
proof -
  let ?h = "replicate (nside2npix nside) (0::int)"
  let ?is = "radec2pix hp ras decs nside"
  have "\<forall>i \<in> set ?is. 0 \<le> i \<and> i < int (length ?h)" using pix by simp
  from np_put_valid[OF this] obtain h' where h': "np_put ?h ?is 1 = Inr h'" by blast
  have lh: "length h' = nside2npix nside" using np_put_length[OF h'] by simp
  have cell: "h' ! nat v = (if v \<in> set ?is then 1 else 0)" if "v \<in> set (concat M)" for v
  proof -
    from mat[OF that] have v0: "0 \<le> v" "v < int (nside2npix nside)" by simp_all
    then have "nat v < nside2npix nside" by linarith
    with v0 have v: "0 \<le> v" "nat v < length ?h" by simp_all
    have "(\<exists>i \<in> set ?is. np_index ?h i = Inr (nat v)) \<longleftrightarrow> v \<in> set ?is"
    proof
      assume "\<exists>i \<in> set ?is. np_index ?h i = Inr (nat v)"
      then obtain i where i: "i \<in> set ?is" "np_index ?h i = Inr (nat v)" by blast
      from pix[OF i(1)] have "np_index ?h i = Inr (nat i)" by (simp add: np_index_in_range)
      with i(2) have "nat i = nat v" by simp
      with pix[OF i(1)] v(1) have "i = v" by linarith
      with i(1) show "v \<in> set ?is" by simp
    next
      assume a: "v \<in> set ?is"
      from pix[OF a] have "np_index ?h v = Inr (nat v)" by (simp add: np_index_in_range)
      with a show "\<exists>i \<in> set ?is. np_index ?h i = Inr (nat v)" by blast
    qed
    with np_put_nth[OF h' v(2)] v(2) show ?thesis by simp
  qed
  have "\<forall>i \<in> set (concat M). 0 \<le> i \<and> i < int (length h')" using mat lh by simp
  from flat_arr2matr_in_range[OF this]
  have "flat_arr2matr h' M = Inr (map (map (\<lambda>i. h' ! nat i)) M)" .
  also have "map (map (\<lambda>i. h' ! nat i)) M = map (map (\<lambda>v. if v \<in> set ?is then 1 else 0)) M"
  proof (intro map_cong refl)
    fix row v assume "row \<in> set M" "v \<in> set row"
    then have "v \<in> set (concat M)" by auto
    then show "h' ! nat v = (if v \<in> set ?is then 1 else 0)" by (rule cell)
  qed
  finally show ?thesis
    by (simp add: draw_dots_def h')
qed

lemma sweep_map:
  assumes "\<And>i. i \<in> set pixels \<Longrightarrow> \<exists>M pic. one_pixel_fragmentation o_nside i nside = Inr M
              \<and> draw_dots hp ras decs nside M = Inr pic \<and> scan_windows pic s ps = Inr (F i)"
  shows "sweep hp ras decs s o_nside nside ps pixels =
         Inr (concat (map (\<lambda>i. map (\<lambda>(x, y, n_src).
                \<lparr> pl_x = x, pl_y = y, pl_pix2 = i, pl_n_src = n_src \<rparr>) (F i)) pixels))"
  using assms
proof (induction pixels)
  case Nil show ?case by simp
next
  case (Cons i pixels)
  from Cons.prems[of i] obtain M pic where
    s: "one_pixel_fragmentation o_nside i nside = Inr M" "draw_dots hp ras decs nside M = Inr pic"
       "scan_windows pic s ps = Inr (F i)" by auto
  have "sweep hp ras decs s o_nside nside ps pixels =
         Inr (concat (map (\<lambda>i. map (\<lambda>(x, y, n_src).
                \<lparr> pl_x = x, pl_y = y, pl_pix2 = i, pl_n_src = n_src \<rparr>) (F i)) pixels))"
    by (rule Cons.IH) (rule Cons.prems, simp)
  then show ?case by (simp add: s)
qed

subsection \<open>The patch table\<close>

lemma generate_patch_coords_None:
  "generate_patch_coords hp ras decs s o_nside nside ps None =
   sweep hp ras decs s o_nside nside ps (map int [0..<nside2npix 2])"
  by (simp add: generate_patch_coords_def split: sum.splits)

lemma generate_patch_coords_Some:
  "generate_patch_coords hp ras decs s o_nside nside ps (Some k) =
   (case sweep hp ras decs 1 o_nside nside ps (map int [0..<nside2npix 2]) of
      Inl e \<Rightarrow> Inl e
    | Inr all_idx \<Rightarrow>
        if k < int (length all_idx)
        then (if k = 0 then Inl ZeroDivisionError
              else py_slice_step all_idx (int (length all_idx) div k))
        else Inr all_idx)"
  by (simp add: generate_patch_coords_def split: sum.splits)

text \<open>
  C8, as amended. With \<^verbatim>\<open>n_patches = k\<close>, \<open>k \<ge> 1\<close>, the step given by the caller is ignored
  and the sweep runs with step 1. When that table has more than \<open>k\<close> lines the generator
  returns its first line and every \<open>floor(n / k)\<close>-th after it, \<open>n\<close> being the number of
  lines: a subsequence of the table in scan order that has at least \<open>k\<close> and at most
  \<open>2k - 1\<close> lines. A table of at most \<open>k\<close> lines is returned whole.
\<close>

theorem generate_patch_coords_n_patches:
  assumes "0 < k"
    and "generate_patch_coords hp ras decs 1 o_nside nside patch_size None = Inr full"
  shows "\<exists>rows. generate_patch_coords hp ras decs step o_nside nside patch_size (Some k) = Inr rows
           \<and> rows = (if k < int (length full)
                      then every (nat (int (length full) div k)) full else full)
           \<and> subseq rows full
           \<and> (if k < int (length full)
                then k \<le> int (length rows) \<and> int (length rows) \<le> 2 * k - 1
                else rows = full)"
proof (cases "k < int (length full)")
  case False
  then show ?thesis
    using assms by (simp add: generate_patch_coords_Some generate_patch_coords_None)
next
  case True
  define n where "n = length full"
  define s where "s = n div nat k"
  have kn: "0 < nat k" "nat k < n" using assms(1) True by (simp_all add: n_def)
  have s: "0 < s" using kn by (simp add: s_def div_greater_zero_iff)
  have d: "int (length full) div k = int s"
    using assms(1) by (simp add: s_def n_def zdiv_int)
  have g: "generate_patch_coords hp ras decs step o_nside nside patch_size (Some k) =
           Inr (every s full)"
    using assms True s by (simp add: generate_patch_coords_Some generate_patch_coords_None
        py_slice_step_def d)
  have l: "length (every s full) = (n + s - 1) div s"
    using s by (simp add: length_every n_def)
  from thinned_bounds[OF kn] have "nat k \<le> (n + s - 1) div s" "(n + s - 1) div s \<le> 2 * nat k - 1"
    unfolding s_def by simp_all
  then have "nat k \<le> length (every s full)" "length (every s full) \<le> 2 * nat k - 1"
    by (simp_all only: l)
  then have b: "k \<le> int (length (every s full))" "int (length (every s full)) \<le> 2 * k - 1"
    using assms(1) by linarith+
  show ?thesis
    using g b True subseq_every[of s full] by (simp add: d)
qed

lemma set_sweep_pix2:
  "sweep hp ras decs s o_nside nside ps pixels = Inr rows \<Longrightarrow> pl_pix2 ` set rows \<subseteq> set pixels"
proof (induction pixels arbitrary: rows)
  case Nil then show ?case by simp
next
  case (Cons i pixels)
  from Cons.prems obtain found rest where
    r: "sweep hp ras decs s o_nside nside ps pixels = Inr rest"
       "rows = map (\<lambda>(x, y, n_src). \<lparr> pl_x = x, pl_y = y, pl_pix2 = i, pl_n_src = n_src \<rparr>) found @ rest"
    by (auto split: sum.splits)
  from Cons.IH[OF r(1)] show ?case by (auto simp: r(2))
qed

lemma generate_patch_coords_pix2_range:
  assumes "generate_patch_coords hp ras decs s o_nside nside ps n_patches = Inr rows"
  shows "\<forall>row \<in> set rows. 0 \<le> pl_pix2 row \<and> pl_pix2 row < 48"
proof -
  have px: "i \<in> set (map int [0..<nside2npix 2]) \<Longrightarrow> 0 \<le> i \<and> i < 48" for i
    by (auto simp: nside2npix_def)
  show ?thesis
  proof (cases n_patches)
    case None
    with assms have "sweep hp ras decs s o_nside nside ps (map int [0..<nside2npix 2]) = Inr rows"
      by (simp add: generate_patch_coords_None)
    from set_sweep_pix2[OF this] px show ?thesis by blast
  next
    case (Some k)
    from assms obtain all_idx where
      a: "sweep hp ras decs 1 o_nside nside ps (map int [0..<nside2npix 2]) = Inr all_idx"
      and r: "rows = all_idx \<or> (\<exists>t. py_slice_step all_idx t = Inr rows)"
      unfolding Some generate_patch_coords_Some by (auto split: sum.splits if_splits)
    have "set rows \<subseteq> set all_idx"
    proof -
      have e: "set (every m xs) \<subseteq> set xs" for m and xs :: "patch_line list"
      proof (induction m xs rule: every.induct)
        case (1 k) show ?case by simp
      next
        case (2 k x xs)
        have "set (drop (k - 1) xs) \<subseteq> set xs" by (rule set_drop_subset)
        with 2 show ?case by auto
      qed
      from r show ?thesis
      proof
        assume "rows = all_idx" then show ?thesis by simp
      next
        assume "\<exists>t. py_slice_step all_idx t = Inr rows"
        then obtain t where "py_slice_step all_idx t = Inr rows" by blast
        then have "rows = every (nat t) all_idx \<or> rows = every (nat (- t)) (rev all_idx)"
          by (auto simp: py_slice_step_def split: if_splits)
        with e[of "nat t" all_idx] e[of "nat (- t)" "rev all_idx"] show ?thesis by auto
      qed
    qed
    with set_sweep_pix2[OF a] px show ?thesis by blast
  qed
qed

subsection \<open>One object on the sky\<close>

lemma grid_length: "0 < s \<Longrightarrow> nat ((1024 - 64 + s - 1) div s) = (959 + nat s) div nat s"
proof -
  assume s: "0 < s"
  have "(1024 - 64 + s - 1) div s = (959 + s) div s" by simp
  also have "nat \<dots> = nat (959 + s) div nat s"
    using s by (simp add: nat_div_distrib)
  also have "nat (959 + s) = 959 + nat s" using s by simp
  finally show ?thesis .
qed

lemma filter_grid:
  assumes "0 < s"
  shows "filter (\<lambda>x. nat x \<le> r0 \<and> r0 < nat x + nat s) (grid s) =
         (if (r0 div nat s) * nat s < 960 then [int (r0 div nat s) * s] else [])"
proof -
  define S where "S = nat s"
  have S: "0 < S" "s = int S" using assms by (simp_all add: S_def)
  define m where "m = (959 + S) div S"
  define K where "K = r0 div S"
  have g: "grid s = map (\<lambda>k. int k * s) [0..<m]"
    unfolding grid_def grid_length[OF assms] m_def S_def ..
  have c: "(nat (int k * s) \<le> r0 \<and> r0 < nat (int k * s) + S) = (k = K)" for k
  proof -
    have n: "nat (int k * s) = k * S" unfolding S(2) by (simp add: nat_mult_distrib)
    show ?thesis
    proof
      assume "nat (int k * s) \<le> r0 \<and> r0 < nat (int k * s) + S"
      then have "S * k \<le> r0" "r0 < S * Suc k" unfolding n by (simp_all add: mult.commute)
      then show "k = K" unfolding K_def by (rule div_nat_eqI[symmetric])
    next
      assume "k = K"
      then have k: "k = r0 div S" by (simp add: K_def)
      have "r0 div S * S \<le> r0" by simp
      moreover have "r0 < r0 div S * S + S"
        using S(1) by (metis add.commute dividend_less_div_times mult.commute)
      ultimately have "k * S \<le> r0 \<and> r0 < k * S + S" unfolding k by blast
      then show "nat (int k * s) \<le> r0 \<and> r0 < nat (int k * s) + S"
        unfolding n .
    qed
  qed
  have km: "(K < m) = (K * S < 960)"
  proof -
    have "(K < m) = (Suc K \<le> (959 + S) div S)" by (simp add: m_def Suc_le_eq)
    also have "\<dots> = (Suc K * S \<le> 959 + S)"
      using S(1) by (simp add: less_eq_div_iff_mult_less_eq)
    also have "\<dots> = (K * S < 960)" by auto
    finally show ?thesis .
  qed
  have "filter (\<lambda>x. nat x \<le> r0 \<and> r0 < nat x + nat s) (grid s) =
        map (\<lambda>k. int k * s) (filter (\<lambda>k. k = K) [0..<m])"
    unfolding g filter_map comp_def S_def[symmetric] c ..
  also have "\<dots> = (if K * S < 960 then [int K * s] else [])"
    by (simp add: filter_eq_upt km)
  finally show ?thesis unfolding K_def S_def .
qed

lemma nested_last: "nested d p ! (2 ^ d - 1) ! (2 ^ d - 1) = (p + 1) * 4 ^ d - 1"
proof (induction d arbitrary: p)
  case 0 show ?case by simp
next
  case (Suc d)
  define n :: nat where "n = 2 ^ d"
  have n: "0 < n" by (simp add: n_def)
  have sq: "square n (nested d q)" for q unfolding n_def by (rule square_nested)
  have l: "length (nested d q) = n" "\<And>r. r < n \<Longrightarrow> length (nested d q ! r) = n" for q
    using sq[of q] by (auto simp: square_def)
  have h: "hcat A B ! r = A ! r @ B ! r" if "r < length A" "r < length B" for A B :: matrix and r
    using that by (simp add: hcat_def)
  have e: "(2::nat) ^ Suc d - 1 = n + (n - 1)" using n by (simp add: n_def)
  have lt: "length (hcat (nested d (4 * p)) (nested d (4 * p + 1))) = n"
    by (simp add: l)
  have "(hcat (nested d (4 * p)) (nested d (4 * p + 1))
          @ hcat (nested d (4 * p + 2)) (nested d (4 * p + 3)))
        ! (length (hcat (nested d (4 * p)) (nested d (4 * p + 1))) + (n - 1)) =
        hcat (nested d (4 * p + 2)) (nested d (4 * p + 3)) ! (n - 1)"
    by (rule nth_append_length_plus)
  then have "nested (Suc d) p ! (n + (n - 1)) =
        hcat (nested d (4 * p + 2)) (nested d (4 * p + 3)) ! (n - 1)"
    unfolding lt nested.simps .
  also have "\<dots> = nested d (4 * p + 2) ! (n - 1) @ nested d (4 * p + 3) ! (n - 1)"
    using n by (intro h) (simp_all add: l)
  finally have row: "nested (Suc d) p ! (n + (n - 1)) =
      nested d (4 * p + 2) ! (n - 1) @ nested d (4 * p + 3) ! (n - 1)" .
  have lr: "length (nested d (4 * p + 2) ! (n - 1)) = n"
    using n by (simp add: l)
  have "(nested d (4 * p + 2) ! (n - 1) @ nested d (4 * p + 3) ! (n - 1))
          ! (length (nested d (4 * p + 2) ! (n - 1)) + (n - 1)) = nested d (4 * p + 3) ! (n - 1) ! (n - 1)"
    by (rule nth_append_length_plus)
  then have "nested (Suc d) p ! (n + (n - 1)) ! (n + (n - 1)) = nested d (4 * p + 3) ! (n - 1) ! (n - 1)"
    unfolding row lr .
  also have "\<dots> = (4 * p + 3 + 1) * 4 ^ d - 1"
    unfolding n_def by (rule Suc.IH)
  also have "\<dots> = (p + 1) * 4 ^ Suc d - 1" by (simp add: algebra_simps)
  finally show ?case unfolding e .
qed

lemma nside2npix_power:
  "0 < o_nside \<Longrightarrow> int (nside2npix (o_nside * 2 ^ d)) = 12 * o_nside * o_nside * 4 ^ d"
proof -
  assume "0 < o_nside"
  have "(4::int) ^ d = 2 ^ d * 2 ^ d" by (simp add: power_mult_distrib[symmetric])
  then show ?thesis
    using \<open>0 < o_nside\<close> by (simp add: nside2npix_def algebra_simps)
qed

lemma swept_pixel:
  assumes "2 \<le> o_nside" "12 * o_nside * o_nside * 4 ^ d \<le> 2 ^ 63" "0 \<le> i" "i < 12 * o_nside * o_nside"
  shows "one_pixel_fragmentation o_nside i (o_nside * 2 ^ d) = Inr (nested d i)"
    and "\<And>v. v \<in> set (concat (nested d i)) \<Longrightarrow> 0 \<le> v \<and> v < int (nside2npix (o_nside * 2 ^ d))"
proof -
  have o: "0 < o_nside" using assms(1) by simp
  have "(i + 1) * 4 ^ d \<le> 12 * o_nside * o_nside * 4 ^ d"
    using assms(4) by (intro mult_right_mono) auto
  then have top: "(i + 1) * 4 ^ d \<le> int (nside2npix (o_nside * 2 ^ d))"
    by (simp only: nside2npix_power[OF o])
  with assms(2) have fit: "(i + 1) * 4 ^ d \<le> 2 ^ 63"
    by (simp only: nside2npix_power[OF o])
  show "one_pixel_fragmentation o_nside i (o_nside * 2 ^ d) = Inr (nested d i)"
    by (rule one_pixel_fragmentation_nested[OF o assms(3) fit])
  fix v assume "v \<in> set (concat (nested d i))"
  then have v: "i * 4 ^ d \<le> v" "v < (i + 1) * 4 ^ d" unfolding set_nested by auto
  have "0 \<le> i * 4 ^ d" using assms(3) by simp
  with v top show "0 \<le> v \<and> v < int (nside2npix (o_nside * 2 ^ d))" by linarith
qed

lemma nested_disjoint:
  assumes "q \<in> set (concat (nested d i))" "q \<in> set (concat (nested d j))"
  shows "i = j"
proof (rule ccontr)
  assume ne: "i \<noteq> j"
  from assms have a: "i * 4 ^ d \<le> q" "q < (i + 1) * 4 ^ d" "j * 4 ^ d \<le> q" "q < (j + 1) * 4 ^ d"
    unfolding set_nested by auto
  have False if "x + 1 \<le> y" "q < (x + 1) * 4 ^ d" "y * 4 ^ d \<le> q" for x y :: int
  proof -
    have "(x + 1) * 4 ^ d \<le> y * 4 ^ d" using that(1) by (intro mult_right_mono) auto
    with that(2,3) show False by linarith
  qed
  from this[of i j] this[of j i] a ne show False by (cases "i < j") auto
qed

lemma concat_map_if_eq:
  "distinct xs \<Longrightarrow> concat (map (\<lambda>i. if i = a then g i else []) xs) = (if a \<in> set xs then g a else [])"
  by (induction xs) auto

lemma swept_pixels: "i \<in> set (map int [0..<nside2npix 2]) \<longleftrightarrow> 0 \<le> i \<and> i < 48"
proof -
  have "nside2npix 2 = 48" by (simp add: nside2npix_def)
  then have "set (map int [0..<nside2npix 2]) = int ` {0..<48}" by simp
  also have "i \<in> \<dots> \<longleftrightarrow> 0 \<le> i \<and> i < 48"
  proof
    assume "i \<in> int ` {0..<48}" then show "0 \<le> i \<and> i < 48" by auto
  next
    assume "0 \<le> i \<and> i < 48"
    then have "nat i \<in> {0..<48}" "i = int (nat i)" by auto
    then show "i \<in> int ` {0..<48}" by (rule_tac image_eqI)
  qed
  finally show ?thesis .
qed

lemma scan_windows_one_object:
  assumes pos: "r0 < 2 ^ d" "c0 < 2 ^ d" "nested d i ! r0 ! c0 = q" and ps: "0 < ps"
  shows "scan_windows (map (map (\<lambda>v. if v \<in> set [q] then 1 else 0)) (nested d i)) ps ps =
         Inr (if (r0 div nat ps) * nat ps < 960 \<and> (c0 div nat ps) * nat ps < 960
              then [(int (r0 div nat ps) * ps, int (c0 div nat ps) * ps, 1)] else [])"
proof -
  let ?M = "nested d i"
  let ?pic = "map (map (\<lambda>v. if v \<in> set [q] then 1 else (0::int))) ?M"
  have l: "length ?M = 2 ^ d" "\<And>r. r < 2 ^ d \<Longrightarrow> length (?M ! r) = 2 ^ d"
    using square_nested[of d i] by (auto simp: square_def)
  have a1: "r0 < length ?pic" using pos(1) l by simp
  have a2: "c0 < length (?pic ! r0)" using pos(1,2) l by simp
  have cells: "(?pic ! r ! c \<noteq> 0) \<longleftrightarrow> (r = r0 \<and> c = c0)"
    if "r < length ?pic" "c < length (?pic ! r)" for r c
  proof -
    have r: "r < length ?M" and c: "c < length (?M ! r)" using that by simp_all
    have "?pic ! r ! c = (if ?M ! r ! c = q then 1 else 0)" using r c by simp
    moreover have "(?M ! r ! c = q) \<longleftrightarrow> (r = r0 \<and> c = c0)"
    proof
      assume "?M ! r ! c = q"
      with pos(3) have "?M ! r ! c = ?M ! r0 ! c0" by simp
      with distinct_concat_nth_inj[OF distinct_nested[of d i] r _ c, of r0 c0] pos(1,2) l
      show "r = r0 \<and> c = c0" by simp
    next
      assume "r = r0 \<and> c = c0" with pos(3) show "?M ! r ! c = q" by simp
    qed
    ultimately show ?thesis by simp
  qed
  have "scan_windows ?pic ps ps =
        Inr (concat (map (\<lambda>x. map (\<lambda>y. (x, y, 1))
                                 (filter (\<lambda>y. nat y \<le> c0 \<and> c0 < nat y + nat ps) (grid ps)))
                          (filter (\<lambda>x. nat x \<le> r0 \<and> r0 < nat x + nat ps) (grid ps))))"
    by (rule scan_windows_single_cell[OF a1 a2 cells ps ps])
  then show ?thesis
    unfolding filter_grid[OF ps] by simp
qed

lemma generate_single_object:
  assumes o: "2 \<le> o_nside" and fit: "12 * o_nside * o_nside * 4 ^ d \<le> 2 ^ 63"
    and single: "radec2pix hp ras decs (o_nside * 2 ^ d) = [q]"
    and i0: "0 \<le> i0" "i0 < 12 * o_nside * o_nside"
    and pos: "r0 < 2 ^ d" "c0 < 2 ^ d" "nested d i0 ! r0 ! c0 = q"
    and ps: "0 < ps"
  shows "generate_patch_coords hp ras decs ps o_nside (o_nside * 2 ^ d) ps None =
         Inr (if i0 < 48 \<and> (r0 div nat ps) * nat ps < 960 \<and> (c0 div nat ps) * nat ps < 960
              then [\<lparr> pl_x = int (r0 div nat ps) * ps, pl_y = int (c0 div nat ps) * ps,
                      pl_pix2 = i0, pl_n_src = 1 \<rparr>]
              else [])"
proof -
  let ?nside = "o_nside * 2 ^ d"
  let ?R = "if (r0 div nat ps) * nat ps < 960 \<and> (c0 div nat ps) * nat ps < 960
            then [(int (r0 div nat ps) * ps, int (c0 div nat ps) * ps, 1::nat)] else []"
  let ?F = "\<lambda>i. if i = i0 then ?R else []"
  let ?mk = "\<lambda>i. \<lambda>(x, y, n_src). \<lparr> pl_x = x, pl_y = y, pl_pix2 = i, pl_n_src = n_src \<rparr>"
  have big: "48 \<le> 12 * o_nside * o_nside"
  proof -
    have "2 * 2 \<le> o_nside * o_nside" using o by (intro mult_mono) auto
    then show ?thesis by simp
  qed
  have l0: "length (nested d i0) = 2 ^ d" "length (nested d i0 ! r0) = 2 ^ d"
    using square_nested[of d i0] pos(1) by (auto simp: square_def)
  have qin: "q \<in> set (concat (nested d i0))"
  proof -
    have "r0 < length (nested d i0)" "c0 < length (nested d i0 ! r0)"
      using pos(1,2) l0 by simp_all
    then have "nested d i0 ! r0 \<in> set (nested d i0)" "nested d i0 ! r0 ! c0 \<in> set (nested d i0 ! r0)"
      by simp_all
    then show ?thesis unfolding pos(3) by auto
  qed
  have qv: "0 \<le> q \<and> q < int (nside2npix ?nside)"
    by (rule swept_pixel(2)[OF o fit i0 qin])
  have pix: "\<And>q'. q' \<in> set (radec2pix hp ras decs ?nside) \<Longrightarrow> 0 \<le> q' \<and> q' < int (nside2npix ?nside)"
    using qv by (simp add: single)
  have each: "\<exists>M pic. one_pixel_fragmentation o_nside i ?nside = Inr M
              \<and> draw_dots hp ras decs ?nside M = Inr pic \<and> scan_windows pic ps ps = Inr (?F i)"
    if "i \<in> set (map int [0..<nside2npix 2])" for i
  proof -
    from that have "0 \<le> i \<and> i < 48" by (simp only: swept_pixels)
    with big have i: "0 \<le> i" "i < 12 * o_nside * o_nside" by linarith+
    note sp = swept_pixel[OF o fit i]
    have "draw_dots hp ras decs ?nside (nested d i) =
              Inr (map (map (\<lambda>v. if v \<in> set (radec2pix hp ras decs ?nside) then 1 else 0))
                     (nested d i))"
    proof (rule draw_dots_cells)
      fix q' assume "q' \<in> set (radec2pix hp ras decs ?nside)"
      then show "0 \<le> q' \<and> q' < int (nside2npix ?nside)" by (rule pix)
    next
      fix v assume "v \<in> set (concat (nested d i))"
      then show "0 \<le> v \<and> v < int (nside2npix ?nside)" by (rule sp(2))
    qed
    then have dd: "draw_dots hp ras decs ?nside (nested d i) =
              Inr (map (map (\<lambda>v. if v \<in> set [q] then 1 else 0)) (nested d i))"
      by (simp only: single)
    have sc: "scan_windows (map (map (\<lambda>v. if v \<in> set [q] then 1 else 0)) (nested d i)) ps ps = Inr (?F i)"
    proof (cases "i = i0")
      case True
      show ?thesis unfolding True using scan_windows_one_object[OF pos ps] by simp
    next
      case False
      have "q \<notin> set (concat (nested d i))"
        using nested_disjoint[OF _ qin] False by blast
      then have "v = 0" if "v \<in> set (concat (map (map (\<lambda>v. if v \<in> set [q] then 1 else (0::int))) (nested d i)))" for v
        using that by auto
      then have "scan_windows (map (map (\<lambda>v. if v \<in> set [q] then 1 else 0)) (nested d i)) ps ps = Inr []"
        using ps by (intro scan_windows_all_zero) auto
      with False show ?thesis by simp
    qed
    from sp(1) dd sc show ?thesis by blast
  qed
  have "generate_patch_coords hp ras decs ps o_nside ?nside ps None =
        Inr (concat (map (\<lambda>i. map (?mk i) (?F i)) (map int [0..<nside2npix 2])))"
    unfolding generate_patch_coords_None by (rule sweep_map) (rule each)
  also have "(\<lambda>i. map (?mk i) (?F i)) = (\<lambda>i. if i = i0 then map (?mk i) ?R else [])"
    by (rule ext) simp
  also have "concat (map (\<lambda>i. if i = i0 then map (?mk i) ?R else []) (map int [0..<nside2npix 2])) =
             (if i0 \<in> set (map int [0..<nside2npix 2]) then map (?mk i0) ?R else [])"
    by (rule concat_map_if_eq) (simp add: distinct_map)
  finally show ?thesis
    unfolding swept_pixels using i0(1) by simp
qed

lemma nested_first: "nested d p ! 0 ! 0 = p * 4 ^ d"
proof (induction d arbitrary: p)
  case 0 show ?case by simp
next
  case (Suc d)
  have l: "0 < length (nested d q)" "0 < length (nested d q ! 0)" for q
    using square_nested[of d q] by (auto simp: square_def)
  obtain a A where A: "nested d (4 * p) = a # A" using l(1)[of "4 * p"] by (cases "nested d (4 * p)") auto
  obtain b B where B: "nested d (4 * p + 1) = b # B"
    using l(1)[of "4 * p + 1"] by (cases "nested d (4 * p + 1)") auto
  have "a \<noteq> []" using l(2)[of "4 * p"] A by auto
  then have "nested (Suc d) p ! 0 ! 0 = a ! 0"
    by (simp add: A B nth_append)
  also have "\<dots> = nested d (4 * p) ! 0 ! 0" by (simp add: A)
  also have "\<dots> = 4 * p * 4 ^ d" by (rule Suc.IH)
  finally show ?case by simp
qed

lemma filter_grid_zero:
  assumes "0 < s" "0 < ps"
  shows "filter (\<lambda>x. nat x \<le> 0 \<and> 0 < nat x + nat ps) (grid s) = [0]"
proof -
  have "filter (\<lambda>x. nat x \<le> 0 \<and> 0 < nat x + nat s') (grid s) =
        (if (0 div nat s) * nat s < 960 then [int (0 div nat s) * s] else [])"
    if "s' = s" for s'
    unfolding that by (rule filter_grid[OF assms(1)])
  then have g: "filter (\<lambda>x. nat x \<le> 0 \<and> 0 < nat x + nat s) (grid s) = [0]" by simp
  have "filter (\<lambda>x. nat x \<le> 0 \<and> 0 < nat x + nat ps) (grid s) =
        filter (\<lambda>x. nat x \<le> 0 \<and> 0 < nat x + nat s) (grid s)"
    by (rule filter_cong[OF refl]) (use assms in auto)
  with g show ?thesis by simp
qed

lemma generate_depth0:
  assumes o: "2 \<le> o_nside" and fit: "12 * o_nside * o_nside \<le> 2 ^ 63"
    and pix: "\<And>q. q \<in> set (radec2pix hp ras decs o_nside) \<Longrightarrow> 0 \<le> q \<and> q < 12 * o_nside * o_nside"
    and s: "0 < s" and ps: "0 < ps"
  shows "generate_patch_coords hp ras decs s o_nside o_nside ps None =
         Inr (map (\<lambda>i. \<lparr> pl_x = 0, pl_y = 0, pl_pix2 = i, pl_n_src = 1 \<rparr>)
                (filter (\<lambda>i. i \<in> set (radec2pix hp ras decs o_nside)) (map int [0..<nside2npix 2])))"
proof -
  let ?Q = "set (radec2pix hp ras decs o_nside)"
  let ?F = "\<lambda>i. if i \<in> ?Q then [(0::int, 0::int, 1::nat)] else []"
  have o0: "0 < o_nside" using o by simp
  have e: "o_nside * 2 ^ 0 = o_nside" by simp
  have fit0: "12 * o_nside * o_nside * 4 ^ 0 \<le> 2 ^ 63" using fit by simp
  have np: "int (nside2npix o_nside) = 12 * o_nside * o_nside"
    using nside2npix_power[OF o0, of 0] by simp
  have big: "48 \<le> 12 * o_nside * o_nside"
  proof -
    have "2 * 2 \<le> o_nside * o_nside" using o by (intro mult_mono) auto
    then show ?thesis by simp
  qed
  have each: "\<exists>M pic. one_pixel_fragmentation o_nside i o_nside = Inr M
              \<and> draw_dots hp ras decs o_nside M = Inr pic \<and> scan_windows pic s ps = Inr (?F i)"
    if "i \<in> set (map int [0..<nside2npix 2])" for i
  proof -
    from that have "0 \<le> i \<and> i < 48" by (simp only: swept_pixels)
    with big have i: "0 \<le> i" "i < 12 * o_nside * o_nside" by linarith+
    have m: "one_pixel_fragmentation o_nside i o_nside = Inr [[i]]"
      using swept_pixel(1)[OF o fit0 i] by simp
    have "draw_dots hp ras decs o_nside [[i]] =
          Inr (map (map (\<lambda>v. if v \<in> ?Q then 1 else 0)) [[i]])"
    proof (rule draw_dots_cells)
      fix q assume "q \<in> ?Q"
      from pix[OF this] show "0 \<le> q \<and> q < int (nside2npix o_nside)" by (simp only: np)
    next
      fix v assume "v \<in> set (concat [[i]])"
      then have "v = i" by simp
      with i show "0 \<le> v \<and> v < int (nside2npix o_nside)" by (simp only: np)
    qed
    then have dd: "draw_dots hp ras decs o_nside [[i]] = Inr [[if i \<in> ?Q then 1 else 0]]" by simp
    have sc: "scan_windows [[if i \<in> ?Q then 1 else 0]] s ps = Inr (?F i)"
    proof (cases "i \<in> ?Q")
      case True
      have "scan_windows [[1]] s ps =
        Inr (concat (map (\<lambda>x. map (\<lambda>y. (x, y, 1))
                                 (filter (\<lambda>y. nat y \<le> 0 \<and> 0 < nat y + nat ps) (grid s)))
                          (filter (\<lambda>x. nat x \<le> 0 \<and> 0 < nat x + nat ps) (grid s))))"
        by (rule scan_windows_single_cell[OF _ _ _ s ps]) auto
      then have "scan_windows [[1]] s ps = Inr [(0, 0, 1)]"
        unfolding filter_grid_zero[OF s ps] by simp
      with True show ?thesis by simp
    next
      case False
      have "scan_windows [[0]] s ps = Inr []"
        using s by (intro scan_windows_all_zero) auto
      with False show ?thesis by simp
    qed
    from m dd sc show ?thesis by blast
  qed
  have c: "concat (map (\<lambda>i. if P i then [f i] else []) xs) = map f (filter P xs)"
    for P and f :: "int \<Rightarrow> patch_line" and xs
    by (induction xs) auto
  have "generate_patch_coords hp ras decs s o_nside o_nside ps None =
        Inr (concat (map (\<lambda>i. map (\<lambda>(x, y, n_src). \<lparr> pl_x = x, pl_y = y, pl_pix2 = i, pl_n_src = n_src \<rparr>) (?F i))
               (map int [0..<nside2npix 2])))"
    unfolding generate_patch_coords_None by (rule sweep_map) (rule each)
  also have "(\<lambda>i. map (\<lambda>(x, y, n_src). \<lparr> pl_x = x, pl_y = y, pl_pix2 = i, pl_n_src = n_src \<rparr>) (?F i)) =
             (\<lambda>i. if i \<in> ?Q then [\<lparr> pl_x = 0, pl_y = 0, pl_pix2 = i, pl_n_src = 1 \<rparr>] else [])"
    by (rule ext) simp
  finally show ?thesis unfolding c .
qed

lemma swept_low: "filter (\<lambda>i. i \<in> set [0, 1, 2, 3, 4]) (map int [0..<nside2npix 2]) = [0, 1, 2, 3, 4]"
proof -
  have n: "nside2npix 2 = 5 + 43" by (simp add: nside2npix_def)
  have s: "[0..<nside2npix 2] = [0..<5] @ [5..<5 + 43]"
    unfolding n by (rule upt_add_eq_append) simp
  have a: "map int [0..<5] = [0, 1, 2, 3, 4]" by code_simp
  have b: "filter (\<lambda>i. i \<in> set [0, 1, 2, 3, 4]) (map int [5..<5 + 43]) = []"
    by (auto simp: filter_empty_conv)
  show ?thesis unfolding s map_append filter_append a b by simp
qed





text \<open>
  The last descendant of the coarse pixel 0 at the module's default resolutions, 2 and
  \<open>2^11\<close>, is the pixel \<open>4^10 - 1\<close>, at the cell \<open>(1023, 1023)\<close> of a 1024-by-1024 image.
\<close>

lemma toy_last_cell:
  assumes "0 < ps"
  shows "generate_patch_coords toy_pixelizer [1048575] [0] ps 2 2048 ps None =
     Inr (if (1023 div nat ps) * nat ps < 960
          then [\<lparr> pl_x = int (1023 div nat ps) * ps, pl_y = int (1023 div nat ps) * ps,
                  pl_pix2 = 0, pl_n_src = 1 \<rparr>] else [])"
proof -
  have h: "(2::int) \<le> 2" "(12::int) * 2 * 2 * 4 ^ 10 \<le> 2 ^ 63"
    "radec2pix toy_pixelizer [1048575] [0] (2 * 2 ^ 10) = [1048575]" "(0::int) \<le> 0" "(0::int) < 12 * 2 * 2"
    by simp_all
  have p: "(1023::nat) < 2 ^ 10" "(1023::nat) < 2 ^ 10" by simp_all
  have c: "nested 10 0 ! 1023 ! 1023 = 1048575"
    using nested_last[of 10 0] by simp
  from generate_single_object[OF h p c assms] show ?thesis by simp
qed


text \<open>
  Two effects of the bound \<^verbatim>\<open>1024 - 64\<close> of the loops, which the amended claim leaves
  out. With the default patch size, 64, and the step 64 the windows start at 0, 64, ...,
  896, since \<^verbatim>\<open>range(0, 1024 - 64, 64)\<close> stops before 960: the same object gets no line,
  although the window from 960 to 1024 lies within the image. With the patch size 150 the
  bound is still \<open>1024 - 64\<close>, and the object gets the line of the window of origin 900,
  which would end at 1050, beyond the image.
\<close>

lemma generate_patch_coords_default_margin:
  "generate_patch_coords toy_pixelizer [1048575] [0] 64 2 2048 64 None = Inr []"
  using toy_last_cell[of 64] by simp

lemma generate_patch_coords_window_beyond_image:
  "generate_patch_coords toy_pixelizer [1048575] [0] 150 2 2048 150 None =
     Inr [\<lparr> pl_x = 900, pl_y = 900, pl_pix2 = 0, pl_n_src = 1 \<rparr>]"
  using toy_last_cell[of 150] by simp

text \<open>
  C3. The sweep runs over \<^verbatim>\<open>range(hp.nside2npix(2))\<close>, the 48 coarse pixels of resolution
  2, whatever \<^verbatim>\<open>o_nside\<close> is. At the coarse resolution 4, which has 192 pixels, and the fine
  resolution 4096 an object at the first cell of the coarse pixel 100 gives no line, and an
  object at the first cell of the coarse pixel 40 gives the line of its window.
\<close>

theorem generate_patch_coords_skips_coarse_pixel_100:
  "(0::int) \<le> 104857600 \<and> (104857600::int) < int (nside2npix 4096)
   \<and> (100::int) < int (nside2npix 4)
   \<and> (\<exists>M. one_pixel_fragmentation 4 100 4096 = Inr M \<and> M ! 0 ! 0 = 104857600)
   \<and> generate_patch_coords toy_pixelizer [104857600] [0] 64 4 4096 64 None = Inr []
   \<and> generate_patch_coords toy_pixelizer [41943040] [0] 64 4 4096 64 None =
       Inr [\<lparr> pl_x = 0, pl_y = 0, pl_pix2 = 40, pl_n_src = 1 \<rparr>]"
proof -
  have h: "(2::int) \<le> 4" "(12::int) * 4 * 4 * 4 ^ 10 \<le> 2 ^ 63" by simp_all
  have p: "(0::nat) < 2 ^ 10" by simp
  have a: "generate_patch_coords toy_pixelizer [104857600] [0] 64 4 4096 64 None = Inr []"
  proof -
    have r: "radec2pix toy_pixelizer [104857600] [0] (4 * 2 ^ 10) = [104857600]" by simp
    have i: "(0::int) \<le> 100" "(100::int) < 12 * 4 * 4" by simp_all
    have c: "nested 10 100 ! 0 ! 0 = 104857600" using nested_first[of 10 100] by simp
    from generate_single_object[OF h r i p p c, of 64] show ?thesis by simp
  qed
  have b: "generate_patch_coords toy_pixelizer [41943040] [0] 64 4 4096 64 None =
       Inr [\<lparr> pl_x = 0, pl_y = 0, pl_pix2 = 40, pl_n_src = 1 \<rparr>]"
  proof -
    have r: "radec2pix toy_pixelizer [41943040] [0] (4 * 2 ^ 10) = [41943040]" by simp
    have i: "(0::int) \<le> 40" "(40::int) < 12 * 4 * 4" by simp_all
    have c: "nested 10 40 ! 0 ! 0 = 41943040" using nested_first[of 10 40] by simp
    from generate_single_object[OF h r i p p c, of 64] show ?thesis by simp
  qed
  have m: "\<exists>M. one_pixel_fragmentation 4 100 4096 = Inr M \<and> M ! 0 ! 0 = 104857600"
  proof -
    have "one_pixel_fragmentation 4 100 (4 * 2 ^ 10) = Inr (nested 10 100)"
      by (rule swept_pixel(1)[OF h]) simp_all
    moreover have "nested 10 100 ! 0 ! 0 = 104857600" using nested_first[of 10 100] by simp
    ultimately show ?thesis by simp
  qed
  show ?thesis using a b m by (simp add: nside2npix_def)
qed

text \<open>
  Five objects in five coarse pixels, with the fine resolution equal to the coarse one:
  every image is one cell, and the table of step 1 has five lines.
\<close>

lemma toy_five_objects:
  "generate_patch_coords toy_pixelizer [0, 1, 2, 3, 4] [0, 0, 0, 0, 0] 1 2 2 64 None =
   Inr [\<lparr> pl_x = 0, pl_y = 0, pl_pix2 = 0, pl_n_src = 1 \<rparr>,
        \<lparr> pl_x = 0, pl_y = 0, pl_pix2 = 1, pl_n_src = 1 \<rparr>,
        \<lparr> pl_x = 0, pl_y = 0, pl_pix2 = 2, pl_n_src = 1 \<rparr>,
        \<lparr> pl_x = 0, pl_y = 0, pl_pix2 = 3, pl_n_src = 1 \<rparr>,
        \<lparr> pl_x = 0, pl_y = 0, pl_pix2 = 4, pl_n_src = 1 \<rparr>]"
proof -
  have "generate_patch_coords toy_pixelizer [0, 1, 2, 3, 4] [0, 0, 0, 0, 0] 1 2 2 64 None =
        Inr (map (\<lambda>i. \<lparr> pl_x = 0, pl_y = 0, pl_pix2 = i, pl_n_src = 1 \<rparr>)
               (filter (\<lambda>i. i \<in> set (radec2pix toy_pixelizer [0, 1, 2, 3, 4] [0, 0, 0, 0, 0] 2))
                  (map int [0..<nside2npix 2])))"
    by (rule generate_depth0) auto
  then show ?thesis unfolding toy_simps swept_low by simp
qed

theorem generate_patch_coords_n_patches_witness:
  "(0::int) < 2
   \<and> generate_patch_coords toy_pixelizer [0, 1, 2, 3, 4] [0, 0, 0, 0, 0] 1 2 2 64 None =
       Inr [\<lparr> pl_x = 0, pl_y = 0, pl_pix2 = 0, pl_n_src = 1 \<rparr>,
            \<lparr> pl_x = 0, pl_y = 0, pl_pix2 = 1, pl_n_src = 1 \<rparr>,
            \<lparr> pl_x = 0, pl_y = 0, pl_pix2 = 2, pl_n_src = 1 \<rparr>,
            \<lparr> pl_x = 0, pl_y = 0, pl_pix2 = 3, pl_n_src = 1 \<rparr>,
            \<lparr> pl_x = 0, pl_y = 0, pl_pix2 = 4, pl_n_src = 1 \<rparr>]
   \<and> generate_patch_coords toy_pixelizer [0, 1, 2, 3, 4] [0, 0, 0, 0, 0] 20 2 2 64 (Some 2) =
       Inr [\<lparr> pl_x = 0, pl_y = 0, pl_pix2 = 0, pl_n_src = 1 \<rparr>,
            \<lparr> pl_x = 0, pl_y = 0, pl_pix2 = 2, pl_n_src = 1 \<rparr>,
            \<lparr> pl_x = 0, pl_y = 0, pl_pix2 = 4, pl_n_src = 1 \<rparr>]"
proof -
  have k: "(0::int) < 2" by simp
  from generate_patch_coords_n_patches[OF k toy_five_objects, of 20]
  have "generate_patch_coords toy_pixelizer [0, 1, 2, 3, 4] [0, 0, 0, 0, 0] 20 2 2 64 (Some 2) =
       Inr [\<lparr> pl_x = 0, pl_y = 0, pl_pix2 = 0, pl_n_src = 1 \<rparr>,
            \<lparr> pl_x = 0, pl_y = 0, pl_pix2 = 2, pl_n_src = 1 \<rparr>,
            \<lparr> pl_x = 0, pl_y = 0, pl_pix2 = 4, pl_n_src = 1 \<rparr>]"
    by (auto simp: eval_nat_numeral)
  with k toy_five_objects show ?thesis by blast
qed

text \<open>
  C8 as stated fails: with a table of five lines and \<^verbatim>\<open>n_patches = 3\<close> the thinning step is
  \<open>5 // 3 = 1\<close> and all five lines are returned.
\<close>

theorem generate_patch_coords_more_than_n_patches:
  "generate_patch_coords toy_pixelizer [0, 1, 2, 3, 4] [0, 0, 0, 0, 0] 20 2 2 64 (Some 3) =
       Inr [\<lparr> pl_x = 0, pl_y = 0, pl_pix2 = 0, pl_n_src = 1 \<rparr>,
            \<lparr> pl_x = 0, pl_y = 0, pl_pix2 = 1, pl_n_src = 1 \<rparr>,
            \<lparr> pl_x = 0, pl_y = 0, pl_pix2 = 2, pl_n_src = 1 \<rparr>,
            \<lparr> pl_x = 0, pl_y = 0, pl_pix2 = 3, pl_n_src = 1 \<rparr>,
            \<lparr> pl_x = 0, pl_y = 0, pl_pix2 = 4, pl_n_src = 1 \<rparr>]
   \<and> (3::nat) < length [\<lparr> pl_x = 0, pl_y = 0, pl_pix2 = 0, pl_n_src = 1 \<rparr>,
            \<lparr> pl_x = 0, pl_y = 0, pl_pix2 = 1, pl_n_src = 1 \<rparr>,
            \<lparr> pl_x = 0, pl_y = 0, pl_pix2 = 2, pl_n_src = 1 \<rparr>,
            \<lparr> pl_x = 0, pl_y = 0, pl_pix2 = 3, pl_n_src = 1 \<rparr>,
            \<lparr> pl_x = 0, pl_y = 0, pl_pix2 = 4, pl_n_src = 1 \<rparr>]"
proof -
  have s: "sweep toy_pixelizer [0, 1, 2, 3, 4] [0, 0, 0, 0, 0] 1 2 2 64 (map int [0..<nside2npix 2]) =
       Inr [\<lparr> pl_x = 0, pl_y = 0, pl_pix2 = 0, pl_n_src = 1 \<rparr>,
            \<lparr> pl_x = 0, pl_y = 0, pl_pix2 = 1, pl_n_src = 1 \<rparr>,
            \<lparr> pl_x = 0, pl_y = 0, pl_pix2 = 2, pl_n_src = 1 \<rparr>,
            \<lparr> pl_x = 0, pl_y = 0, pl_pix2 = 3, pl_n_src = 1 \<rparr>,
            \<lparr> pl_x = 0, pl_y = 0, pl_pix2 = 4, pl_n_src = 1 \<rparr>]"
    using toy_five_objects unfolding generate_patch_coords_None .
  show ?thesis
    unfolding generate_patch_coords_Some s by (simp add: py_slice_step_def every_one)
qed

end
